theory Spec2Isabelle
  imports Main "HOL-Library.Multiset"
begin

unbundle bit_operations_syntax

section \<open>The syscall tracer of procd (trace/trace.c)\<close>

text \<open>
  The tracer follows a program with ptrace, counts the system calls it enters and writes
  a whitelist of their names. This theory embeds the two functions that carry the logic,
  \<^verbatim>\<open>print_syscalls\<close> (with \<^verbatim>\<open>set_syscall\<close> and \<^verbatim>\<open>cmp_count\<close>) and \<^verbatim>\<open>tracer_cb\<close>, and the
  part of \<^verbatim>\<open>main\<close> that prepares their globals and calls them.

  What the file takes from elsewhere is a parameter of the model:
  \<^item> \<^verbatim>\<open>syscall_names\<close>, the generated table of \<^verbatim>\<open>../syscall-names.h\<close>: a list of optional
    names, \<open>None\<close> for a \<^verbatim>\<open>NULL\<close> slot; \<^verbatim>\<open>ARRAY_SIZE(syscall_names)\<close> is its length;
  \<^item> \<^verbatim>\<open>qsort\<close> of the C library: a function from a comparator and an array to an array;
  \<^item> the result of \<^verbatim>\<open>fopen\<close>, of \<^verbatim>\<open>asprintf\<close> and of each \<^verbatim>\<open>ptrace\<close> request;
  \<^item> the \<^verbatim>\<open>W*\<close> macros of \<^verbatim>\<open>sys/wait.h\<close>, given below as glibc and as musl write them.
\<close>

subsection \<open>C integers\<close>

text \<open>
  An \<^verbatim>\<open>int\<close> is 32 bits wide on the four supported targets. Values are kept as HOL
  integers; \<open>int32\<close> is the wrap-around of an arithmetic result to that width.
\<close>

definition int32 :: "int \<Rightarrow> int" where
  "int32 x = signed_take_bit 31 x"

definition INT_MAX :: int where
  "INT_MAX = 2147483647"

subsection \<open>The counter table and the forced entries\<close>

type_synonym names = "string option list"

text \<open>
  \<^verbatim>\<open>set_syscall\<close>, lines 79 to 88: the loop runs \<open>i\<close> from 0 to \<^verbatim>\<open>max_syscall\<close>, stores
  \<open>val\<close> at the first slot that bears the name and returns; a name the table does not
  have leaves the counters alone.
\<close>

function set_syscall_from :: "names \<Rightarrow> string \<Rightarrow> int \<Rightarrow> nat \<Rightarrow> int list \<Rightarrow> int list" where
  "set_syscall_from syscall_names name val i syscall_count =
     (if i < length syscall_names then
        (if syscall_names ! i = Some name then syscall_count[i := val]
         else set_syscall_from syscall_names name val (Suc i) syscall_count)
      else syscall_count)"
  by pat_completeness auto
termination
  by (relation "measure (\<lambda>(ns, name, val, i, cnt). length ns - i)") auto

declare set_syscall_from.simps [simp del]

definition set_syscall :: "names \<Rightarrow> string \<Rightarrow> int \<Rightarrow> int list \<Rightarrow> int list" where
  "set_syscall syscall_names name val syscall_count =
     set_syscall_from syscall_names name val 0 syscall_count"

text \<open>The five calls that open \<^verbatim>\<open>print_syscalls\<close>, lines 105 to 109, in their order.\<close>

definition force_minimums :: "names \<Rightarrow> int list \<Rightarrow> int list" where
  "force_minimums syscall_names syscall_count =
     set_syscall syscall_names ''exit'' 1
       (set_syscall syscall_names ''exit_group'' 1
         (set_syscall syscall_names ''rt_sigreturn'' 1
           (set_syscall syscall_names ''sigreturn'' 1
             (set_syscall syscall_names ''rt_sigaction'' 1 syscall_count))))"

definition mandatory :: "string list" where
  "mandatory = [''rt_sigaction'', ''sigreturn'', ''rt_sigreturn'', ''exit_group'', ''exit'']"

text \<open>The slot \<^verbatim>\<open>set_syscall\<close> writes: the first one that bears the name.\<close>

definition first_named :: "names \<Rightarrow> string \<Rightarrow> nat \<Rightarrow> bool" where
  "first_named syscall_names name i \<longleftrightarrow>
     i < length syscall_names \<and> syscall_names ! i = Some name \<and>
     (\<forall>j < i. syscall_names ! j \<noteq> Some name)"

subsection \<open>Sorting\<close>

record syscall =
  syscall :: nat
  count :: int

text \<open>\<^verbatim>\<open>cmp_count\<close>, lines 95 to 98: the difference of two \<^verbatim>\<open>int\<close> counts, as an \<^verbatim>\<open>int\<close>.\<close>

definition cmp_count :: "syscall \<Rightarrow> syscall \<Rightarrow> int" where
  "cmp_count a b = int32 (count b - count a)"

text \<open>Lines 113 to 116: slot \<open>i\<close> of the array holds \<open>i\<close> and its counter.\<close>

definition fill_sorted :: "names \<Rightarrow> int list \<Rightarrow> syscall list" where
  "fill_sorted syscall_names syscall_count =
     map (\<lambda>i. \<lparr>syscall = i, count = syscall_count ! i\<rparr>) [0 ..< length syscall_names]"

text \<open>
  What the C standard promises of \<^verbatim>\<open>qsort\<close>: the array holds the same elements and no
  element compares greater than a later one. Where two elements compare equal their order
  is left open.
\<close>

definition qsort_post :: "('a \<Rightarrow> 'a \<Rightarrow> int) \<Rightarrow> 'a list \<Rightarrow> 'a list \<Rightarrow> bool" where
  "qsort_post cmp xs ys \<longleftrightarrow> mset ys = mset xs \<and> sorted_wrt (\<lambda>a b. cmp a b \<le> 0) ys"

text \<open>
  Two sorting routines that a C library may use. Both are insertion sorts; the first
  takes the elements from the right and keeps equal elements in their order, the second
  takes them from the left and reverses equal elements.
\<close>

fun insert_cmp :: "('a \<Rightarrow> 'a \<Rightarrow> int) \<Rightarrow> 'a \<Rightarrow> 'a list \<Rightarrow> 'a list" where
  "insert_cmp cmp x [] = [x]"
| "insert_cmp cmp x (y # ys) =
     (if cmp x y \<le> 0 then x # y # ys else y # insert_cmp cmp x ys)"

definition qsort_stable :: "('a \<Rightarrow> 'a \<Rightarrow> int) \<Rightarrow> 'a list \<Rightarrow> 'a list" where
  "qsort_stable cmp xs = foldr (insert_cmp cmp) xs []"

definition qsort_unstable :: "('a \<Rightarrow> 'a \<Rightarrow> int) \<Rightarrow> 'a list \<Rightarrow> 'a list" where
  "qsort_unstable cmp xs = foldl (\<lambda>acc x. insert_cmp cmp x acc) [] xs"

subsection \<open>Emitting the policy\<close>

record blob =
  whitelist :: "string list"
  policy :: int

datatype out_event =
    Printf_called nat string int
  | Error_no_name nat
  | Fprintf_file string blob
  | Info_saving string
  | Error_failed_open string
  | Printf_stdout blob
  | Error_alloc_path

text \<open>
  The loop of lines 123 to 135 over the sorted array: it stops at the first entry whose
  count is zero, adds the name of an entry that has one and logs an entry that has none.
  It returns the strings added to the array and what was printed and logged.
\<close>

fun emit_loop :: "names \<Rightarrow> bool \<Rightarrow> syscall list \<Rightarrow> string list \<times> out_event list" where
  "emit_loop syscall_names debug [] = ([], [])"
| "emit_loop syscall_names debug (e # es) =
     (let sc = syscall e in
      if count e = 0 then ([], [])
      else
        (let (wl, out) = emit_loop syscall_names debug es in
         case syscall_names ! sc of
           Some nm \<Rightarrow>
             (nm # wl, (if debug then [Printf_called sc nm (count e)] else []) @ out)
         | None \<Rightarrow> (wl, Error_no_name sc # out)))"

text \<open>Lines 138 to 150: where the formatted blob goes.\<close>

definition write_blob :: "(string \<Rightarrow> bool) \<Rightarrow> string option \<Rightarrow> blob \<Rightarrow> out_event list" where
  "write_blob fopen_ok json b =
     (case json of
        Some path \<Rightarrow>
          (if fopen_ok path then [Fprintf_file path b, Info_saving path]
           else [Error_failed_open path])
      | None \<Rightarrow> [Printf_stdout b])"

text \<open>
  \<^verbatim>\<open>print_syscalls\<close>, lines 100 to 152. It returns the counter table, which the forced
  entries have changed, and everything it printed, logged and wrote, in order.
\<close>

definition print_syscalls ::
  "((syscall \<Rightarrow> syscall \<Rightarrow> int) \<Rightarrow> syscall list \<Rightarrow> syscall list) \<Rightarrow> names \<Rightarrow> bool \<Rightarrow>
   (string \<Rightarrow> bool) \<Rightarrow> int \<Rightarrow> string option \<Rightarrow> int list \<Rightarrow> int list \<times> out_event list" where
  "print_syscalls qsort syscall_names debug fopen_ok policy_id json syscall_count =
     (let syscall_count' = force_minimums syscall_names syscall_count;
          sorted = qsort cmp_count (fill_sorted syscall_names syscall_count');
          (wl, out) = emit_loop syscall_names debug sorted;
          b = \<lparr>whitelist = wl, policy = policy_id\<rparr>
      in (syscall_count', out @ write_blob fopen_ok json b))"

text \<open>
  The end of \<^verbatim>\<open>main\<close>, lines 288 to 292. Without \<^verbatim>\<open>-f\<close> the path is built by
  \<^verbatim>\<open>asprintf\<close>; when that fails the pointer stays \<^verbatim>\<open>NULL\<close> and the failure is logged.
\<close>

definition main_emit ::
  "((syscall \<Rightarrow> syscall \<Rightarrow> int) \<Rightarrow> syscall list \<Rightarrow> syscall list) \<Rightarrow> names \<Rightarrow> bool \<Rightarrow>
   (string \<Rightarrow> bool) \<Rightarrow> string option \<Rightarrow> int \<Rightarrow> string option \<Rightarrow> int list \<Rightarrow>
   int list \<times> out_event list" where
  "main_emit qsort syscall_names debug fopen_ok asprintf_result policy_id json syscall_count =
     (let (json', log) =
            (case json of
               Some path \<Rightarrow> (Some path, [])
             | None \<Rightarrow>
                 (case asprintf_result of
                    Some path \<Rightarrow> (Some path, [])
                  | None \<Rightarrow> (None, [Error_alloc_path])));
          (syscall_count', out) =
            print_syscalls qsort syscall_names debug fopen_ok policy_id json' syscall_count
      in (syscall_count', log @ out))"

text \<open>The blobs that reached a file or the standard output.\<close>

fun written :: "out_event list \<Rightarrow> blob list" where
  "written [] = []"
| "written (Fprintf_file path b # out) = b # written out"
| "written (Printf_stdout b # out) = b # written out"
| "written (x # out) = written out"

subsection \<open>The wait status\<close>

text \<open>
  The macros of \<^verbatim>\<open>sys/wait.h\<close> that \<^verbatim>\<open>tracer_cb\<close> applies to its \<^verbatim>\<open>int ret\<close>, as glibc
  (\<^verbatim>\<open>bits/waitstatus.h\<close>) and musl write them now. The two differ in \<^verbatim>\<open>WIFSTOPPED\<close> and
  \<^verbatim>\<open>WIFSIGNALED\<close>; the casts to \<^verbatim>\<open>signed char\<close>, \<^verbatim>\<open>short\<close> and \<^verbatim>\<open>unsigned\<close> are
  written out. The handler does not rely on \<^verbatim>\<open>WIFSTOPPED\<close> for a status that carries an
  event number: it tests \<^verbatim>\<open>ret >> 16\<close> itself.
\<close>

datatype libc = Glibc | Musl

definition WEXITSTATUS :: "int \<Rightarrow> int" where
  "WEXITSTATUS s = drop_bit 8 (s AND 0xff00)"

definition WTERMSIG :: "int \<Rightarrow> int" where
  "WTERMSIG s = s AND 0x7f"

definition WSTOPSIG :: "int \<Rightarrow> int" where
  "WSTOPSIG s = WEXITSTATUS s"

definition WIFEXITED :: "int \<Rightarrow> bool" where
  "WIFEXITED s \<longleftrightarrow> WTERMSIG s = 0"

fun WIFSTOPPED :: "libc \<Rightarrow> int \<Rightarrow> bool" where
  "WIFSTOPPED Glibc s \<longleftrightarrow> s AND 0xff = 0x7f"
| "WIFSTOPPED Musl s \<longleftrightarrow>
     signed_take_bit 15 (drop_bit 8 (take_bit 32 ((s AND 0xffff) * 0x10001))) > 0x7f00"

fun WIFSIGNALED :: "libc \<Rightarrow> int \<Rightarrow> bool" where
  "WIFSIGNALED Glibc s \<longleftrightarrow> drop_bit 1 (signed_take_bit 7 ((s AND 0x7f) + 1)) > 0"
| "WIFSIGNALED Musl s \<longleftrightarrow> take_bit 32 ((s AND 0xffff) - 1) < 0xff"

definition SIGTRAP :: int where
  "SIGTRAP = 5"

definition PTRACE_EVENT_FORK :: int where
  "PTRACE_EVENT_FORK = 1"

definition PTRACE_EVENT_VFORK :: int where
  "PTRACE_EVENT_VFORK = 2"

definition PTRACE_EVENT_CLONE :: int where
  "PTRACE_EVENT_CLONE = 3"

definition PTRACE_EVENT_STOP :: int where
  "PTRACE_EVENT_STOP = 128"

subsection \<open>Tracees and the handler of their events\<close>

text \<open>
  \<^verbatim>\<open>struct tracee\<close>, lines 66 to 69, with the two fields of its \<^verbatim>\<open>uloop_process\<close> that the
  file touches. The tracees live in a store indexed by handle: slot 0 is the static
  \<^verbatim>\<open>tracer\<close>, \<^verbatim>\<open>calloc\<close> (taken to succeed) appends a zeroed slot, \<^verbatim>\<open>free\<close> empties one.
\<close>

datatype callback = Tracer_cb

record tracee =
  pid :: int
  cb :: "callback option"
  in_syscall :: int

definition tracer :: nat where
  "tracer = 0"

record state =
  tracees :: "tracee option list"
  syscall_count :: "int list"
  uloop_cancelled :: bool

definition tracee_at :: "state \<Rightarrow> nat \<Rightarrow> tracee option" where
  "tracee_at st c = (if c < length (tracees st) then tracees st ! c else None)"

text \<open>
  What one call of the handler is given by its surroundings: the value that
  \<^verbatim>\<open>PTRACE_PEEKUSER\<close> leaves in \<^verbatim>\<open>int syscall\<close> (\<open>-1\<close> when the request fails), and the
  message of \<^verbatim>\<open>PTRACE_GETEVENTMSG\<close> (\<open>None\<close> when the request fails and writes nothing).
\<close>

record ptrace_env =
  peekuser :: int
  geteventmsg :: "int option"

text \<open>The calls the handler makes, in order; the \<^verbatim>\<open>fprintf\<close> lines appear with \<^verbatim>\<open>debug\<close>.\<close>

datatype call =
    Ptrace_peekuser int
  | Ptrace_geteventmsg int
  | Ptrace_syscall int int
  | Uloop_process_add nat
  | Uloop_end
  | Free nat
  | Fprintf_syscall "string option"
  | Fprintf_syscal int
  | Fprintf_new_child int
  | Fprintf_inject int int
  | Fprintf_child_exited int

datatype error = Out_of_bounds int | Invalid_tracee nat

text \<open>
  Lines 165 to 173, the entry of a system call. The test is \<^verbatim>\<open>syscall < syscall_max\<close>
  alone; an index that is not a slot of the table is an error of the model, where the C
  program writes outside the array.
\<close>

definition count_syscall ::
  "names \<Rightarrow> bool \<Rightarrow> ptrace_env \<Rightarrow> tracee \<Rightarrow> state \<Rightarrow> error + call list \<times> state" where
  "count_syscall syscall_names debug env t st =
     (let syscall_nr = peekuser env;
          syscall_max = int (length syscall_names)
      in if syscall_nr < syscall_max then
           (if 0 \<le> syscall_nr \<and> nat syscall_nr < length (syscall_count st) then
              Inr (Ptrace_peekuser (pid t) #
                     (if debug then [Fprintf_syscall (syscall_names ! nat syscall_nr)] else []),
                   st\<lparr>syscall_count :=
                        (syscall_count st)
                          [nat syscall_nr := int32 (syscall_count st ! nat syscall_nr + 1)]\<rparr>)
            else Inl (Out_of_bounds syscall_nr))
         else
           Inr (Ptrace_peekuser (pid t) # (if debug then [Fprintf_syscal syscall_nr] else []),
                st))"

text \<open>
  Lines 162 to 194, the body of the first branch: what is done at a stop before the
  tracee is continued. It returns the calls made, the state and \<^verbatim>\<open>inject_signal\<close>.
\<close>

definition handle_stop ::
  "names \<Rightarrow> bool \<Rightarrow> ptrace_env \<Rightarrow> nat \<Rightarrow> tracee \<Rightarrow> int \<Rightarrow> state \<Rightarrow>
   error + call list \<times> state \<times> int" where
  "handle_stop syscall_names debug env c t ret st =
     (if WSTOPSIG ret AND 0x80 \<noteq> 0 then
        (case (if in_syscall t = 0 then count_syscall syscall_names debug env t st
               else Inr ([], st)) of
           Inl e \<Rightarrow> Inl e
         | Inr (calls, st') \<Rightarrow>
             Inr (calls,
                  st'\<lparr>tracees :=
                        (tracees st')
                          [c := Some (t\<lparr>in_syscall := (if in_syscall t = 0 then 1 else 0)\<rparr>)]\<rparr>,
                  0))
      else if drop_bit 8 ret = SIGTRAP OR push_bit 8 PTRACE_EVENT_FORK \<or>
              drop_bit 8 ret = SIGTRAP OR push_bit 8 PTRACE_EVENT_VFORK \<or>
              drop_bit 8 ret = SIGTRAP OR push_bit 8 PTRACE_EVENT_CLONE then
        (let child_pid = (case geteventmsg env of Some msg \<Rightarrow> msg | None \<Rightarrow> 0);
             child = \<lparr>pid = child_pid, cb = Some Tracer_cb, in_syscall = 0\<rparr>;
             child_handle = length (tracees st)
         in Inr ([Ptrace_geteventmsg (pid t), Ptrace_syscall child_pid 0,
                  Uloop_process_add child_handle] @
                 (if debug then [Fprintf_new_child child_pid] else []),
                 st\<lparr>tracees := tracees st @ [Some child]\<rparr>,
                 0))
      else if drop_bit 16 ret = PTRACE_EVENT_STOP then Inr ([], st, 0)
      else
        Inr (if debug then [Fprintf_inject (WSTOPSIG ret) (pid t)] else [], st, WSTOPSIG ret))"

text \<open>
  \<^verbatim>\<open>tracer_cb\<close>, lines 154 to 208, called by the event loop with the tracee \<open>c\<close> whose
  status changed and the status \<open>ret\<close>. A handle that holds no tracee is an error of the
  model.
\<close>

definition tracer_cb ::
  "libc \<Rightarrow> names \<Rightarrow> bool \<Rightarrow> ptrace_env \<Rightarrow> nat \<Rightarrow> int \<Rightarrow> state \<Rightarrow> error + call list \<times> state" where
  "tracer_cb L syscall_names debug env c ret st =
     (case tracee_at st c of
        None \<Rightarrow> Inl (Invalid_tracee c)
      | Some t \<Rightarrow>
          if WIFSTOPPED L ret \<or> drop_bit 16 ret \<noteq> 0 then
            (case handle_stop syscall_names debug env c t ret st of
               Inl e \<Rightarrow> Inl e
             | Inr (calls, st', inject_signal) \<Rightarrow>
                 Inr (calls @ [Ptrace_syscall (pid t) inject_signal, Uloop_process_add c], st'))
          else if WIFEXITED ret \<or> (WIFSIGNALED L ret \<and> WTERMSIG ret \<noteq> 0) then
            (if c = tracer then Inr ([Uloop_end], st\<lparr>uloop_cancelled := True\<rparr>)
             else
               Inr ((if debug then [Fprintf_child_exited (pid t)] else []) @ [Free c],
                    st\<lparr>tracees := (tracees st)[c := None]\<rparr>))
          else Inr ([Ptrace_syscall (pid t) 0, Uloop_process_add c], st))"

subsection \<open>The run\<close>

text \<open>
  What \<^verbatim>\<open>main\<close> sets up before the loop, lines 266 to 284: a zeroed counter table of the
  size of the name table and the static \<^verbatim>\<open>tracer\<close> with the pid of the child.
\<close>

definition init_state :: "names \<Rightarrow> int \<Rightarrow> state" where
  "init_state syscall_names child =
     \<lparr>tracees = [Some \<lparr>pid = child, cb = Some Tracer_cb, in_syscall = 0\<rparr>],
      syscall_count = replicate (length syscall_names) 0,
      uloop_cancelled = False\<rparr>"

text \<open>
  The event loop is \<^verbatim>\<open>uloop_run\<close> of libubox. It is taken as the spec describes the
  dispatcher: one status change at a time, each handed to the callback of the process it
  belongs to and handled to completion, until \<^verbatim>\<open>uloop_end\<close> has been called. A delivery
  names the tracee, its status and what the ptrace requests of that call will answer.
\<close>

record delivery =
  target :: nat
  status :: int
  answers :: ptrace_env

fun uloop_run ::
  "libc \<Rightarrow> names \<Rightarrow> bool \<Rightarrow> delivery list \<Rightarrow> state \<Rightarrow> error + call list \<times> state" where
  "uloop_run L syscall_names debug [] st = Inr ([], st)"
| "uloop_run L syscall_names debug (d # ds) st =
     (if uloop_cancelled st then Inr ([], st)
      else
        (case tracer_cb L syscall_names debug (answers d) (target d) (status d) st of
           Inl e \<Rightarrow> Inl e
         | Inr (calls, st') \<Rightarrow>
             (case uloop_run L syscall_names debug ds st' of
                Inl e \<Rightarrow> Inl e
              | Inr (calls', st'') \<Rightarrow> Inr (calls @ calls', st''))))"

subsection \<open>The events of the kernel\<close>

text \<open>
  The events that the spec's Status Decoder names, and the status word with which Linux
  reports each to \<^verbatim>\<open>waitpid\<close> under \<^verbatim>\<open>PTRACE_SEIZE\<close> with \<^verbatim>\<open>PTRACE_O_TRACESYSGOOD\<close>
  (ptrace(2), wait(2)): a stop has \<open>0x7f\<close> in the low byte and the signal in the next,
  a syscall stop has \<^verbatim>\<open>SIGTRAP | 0x80\<close> as its signal, a ptrace event has its number from
  bit 16 on, an exit has the exit code in the second byte, and a death by signal has the
  signal in the low seven bits and the core flag in bit 7.
\<close>

datatype child_kind = Fork | Vfork | Clone

datatype event =
    SyscallBoundary
  | NewChildEvent child_kind
  | GenericGroupStop int
  | SignalDeliveryStop int
  | Exited int
  | Signaled int bool

fun event_number :: "child_kind \<Rightarrow> int" where
  "event_number Fork = PTRACE_EVENT_FORK"
| "event_number Vfork = PTRACE_EVENT_VFORK"
| "event_number Clone = PTRACE_EVENT_CLONE"

definition status_word :: "int \<Rightarrow> int \<Rightarrow> int \<Rightarrow> int" where
  "status_word ev sig low = ev * 65536 + sig * 256 + low"

fun wait_status :: "event \<Rightarrow> int" where
  "wait_status SyscallBoundary = status_word 0 (SIGTRAP + 128) 127"
| "wait_status (NewChildEvent k) = status_word (event_number k) SIGTRAP 127"
| "wait_status (GenericGroupStop sig) = status_word PTRACE_EVENT_STOP sig 127"
| "wait_status (SignalDeliveryStop sig) = status_word 0 sig 127"
| "wait_status (Exited code) = status_word 0 code 0"
| "wait_status (Signaled sig core) = status_word 0 0 (sig + (if core then 128 else 0))"

text \<open>Signal numbers are 1 to 64 (to 127 on MIPS), exit codes 0 to 255.\<close>

fun valid_event :: "event \<Rightarrow> bool" where
  "valid_event SyscallBoundary \<longleftrightarrow> True"
| "valid_event (NewChildEvent k) \<longleftrightarrow> True"
| "valid_event (GenericGroupStop sig) \<longleftrightarrow> 0 < sig \<and> sig < 128"
| "valid_event (SignalDeliveryStop sig) \<longleftrightarrow> 0 < sig \<and> sig < 128"
| "valid_event (Exited code) \<longleftrightarrow> 0 \<le> code \<and> code < 256"
| "valid_event (Signaled sig core) \<longleftrightarrow> 0 < sig \<and> sig < 128"

fun terminal :: "event \<Rightarrow> bool" where
  "terminal (Exited code) \<longleftrightarrow> True"
| "terminal (Signaled sig core) \<longleftrightarrow> True"
| "terminal e \<longleftrightarrow> False"

text \<open>
  The status of a death by signal 127 is \<open>0x7f\<close>, or \<open>0xff\<close> with a core dump. The
  macros of glibc read the first as a stop and the second as neither a stop, an exit nor
  a death by signal; those of musl read both as a death by signal. The terminal events
  that the macros of the C library in use tell from the rest are therefore these.
\<close>

fun decoded_terminal :: "libc \<Rightarrow> event \<Rightarrow> bool" where
  "decoded_terminal L (Exited code) \<longleftrightarrow> True"
| "decoded_terminal L (Signaled sig core) \<longleftrightarrow> L = Musl \<or> sig < 127"
| "decoded_terminal L e \<longleftrightarrow> False"

subsection \<open>Notions used in the statements\<close>

text \<open>A status change as the event loop hands it over: the event comes as its status word.\<close>

definition deliver :: "nat \<times> event \<times> ptrace_env \<Rightarrow> delivery" where
  "deliver x = (case x of (c, e, env) \<Rightarrow> \<lparr>target = c, status = wait_status e, answers = env\<rparr>)"

text \<open>The flag after \<^verbatim>\<open>tracee->in_syscall = !tracee->in_syscall\<close>.\<close>

definition toggled :: "tracee \<Rightarrow> tracee" where
  "toggled t = t\<lparr>in_syscall := (if in_syscall t = 0 then 1 else 0)\<rparr>"

text \<open>How many syscall-boundary events a list of events holds for the tracee \<open>c\<close>.\<close>

definition boundaries :: "nat \<Rightarrow> (nat \<times> event \<times> ptrace_env) list \<Rightarrow> nat" where
  "boundaries c es = length (filter (\<lambda>(h, e, env). h = c \<and> e = SyscallBoundary) es)"

text \<open>
  A list of events is well formed for the loop when, as long as the root has met no
  decoded terminal event, every event is one of the kernel's, goes to a slot that holds a
  tracee when the event arrives, and comes with a register read that is not negative if
  it is a syscall boundary. Which slots hold a tracee is followed along the list: a fork,
  vfork or clone event fills a fresh slot, a decoded terminal event of a tracee other
  than the root empties its slot.
\<close>

definition live_slots :: "state \<Rightarrow> bool list" where
  "live_slots st = map (\<lambda>slot. slot \<noteq> None) (tracees st)"

fun next_live :: "libc \<Rightarrow> bool list \<Rightarrow> nat \<Rightarrow> event \<Rightarrow> bool list" where
  "next_live L live h (NewChildEvent k) = live @ [True]"
| "next_live L live h e =
     (if decoded_terminal L e \<and> h \<noteq> tracer then live[h := False] else live)"

fun well_formed :: "libc \<Rightarrow> bool list \<Rightarrow> (nat \<times> event \<times> ptrace_env) list \<Rightarrow> bool" where
  "well_formed L live [] \<longleftrightarrow> True"
| "well_formed L live ((h, e, env) # es) \<longleftrightarrow>
     h < length live \<and> live ! h \<and> valid_event e \<and>
     (e = SyscallBoundary \<longrightarrow> 0 \<le> peekuser env) \<and>
     (h = tracer \<and> decoded_terminal L e \<or> well_formed L (next_live L live h e) es)"

text \<open>
  The continuation requests among the calls, each with its pid and the signal it passes,
  and the handles given to \<^verbatim>\<open>uloop_process_add\<close>.
\<close>

fun continuations :: "call list \<Rightarrow> (int \<times> int) list" where
  "continuations [] = []"
| "continuations (Ptrace_syscall p sig # calls) = (p, sig) # continuations calls"
| "continuations (x # calls) = continuations calls"

fun registrations :: "call list \<Rightarrow> nat list" where
  "registrations [] = []"
| "registrations (Uloop_process_add h # calls) = h # registrations calls"
| "registrations (x # calls) = registrations calls"

section \<open>The policy emitter\<close>

subsection \<open>What the forced entries do to the table\<close>

lemma length_set_syscall_from [simp]:
  "length (set_syscall_from ns name v i cnt) = length cnt"
  by (induction ns name v i cnt rule: set_syscall_from.induct)
     (subst set_syscall_from.simps, simp)

lemma nth_set_syscall_from:
  "length cnt = length ns \<Longrightarrow> k < length ns \<Longrightarrow>
   set_syscall_from ns name v i cnt ! k =
     (if i \<le> k \<and> ns ! k = Some name \<and> (\<forall>j. i \<le> j \<and> j < k \<longrightarrow> ns ! j \<noteq> Some name)
      then v else cnt ! k)"
proof (induction ns name v i cnt rule: set_syscall_from.induct)
  case (1 ns name v i cnt)
  show ?case
  proof (cases "i < length ns")
    case False
    with "1.prems" show ?thesis
      by (subst set_syscall_from.simps) simp
  next
    case inb: True
    show ?thesis
    proof (cases "ns ! i = Some name")
      case True
      with inb "1.prems" show ?thesis
        by (subst set_syscall_from.simps) (auto simp: nth_list_update)
    next
      case False
      have step: "set_syscall_from ns name v i cnt = set_syscall_from ns name v (Suc i) cnt"
        using inb False by (subst set_syscall_from.simps) simp
      have "(i \<le> k \<and> ns ! k = Some name \<and> (\<forall>j. i \<le> j \<and> j < k \<longrightarrow> ns ! j \<noteq> Some name))
            = (Suc i \<le> k \<and> ns ! k = Some name \<and> (\<forall>j. Suc i \<le> j \<and> j < k \<longrightarrow> ns ! j \<noteq> Some name))"
        using False by (metis Suc_leD Suc_le_eq le_neq_implies_less not_less_eq_eq)
      then show ?thesis
        using "1.IH" [OF inb False "1.prems"] step by simp
    qed
  qed
qed

lemma length_set_syscall [simp]: "length (set_syscall ns name v cnt) = length cnt"
  by (simp add: set_syscall_def)

lemma nth_set_syscall:
  "length cnt = length ns \<Longrightarrow> k < length ns \<Longrightarrow>
   set_syscall ns name v cnt ! k = (if first_named ns name k then v else cnt ! k)"
  by (simp add: set_syscall_def nth_set_syscall_from first_named_def)

lemma length_force_minimums [simp]: "length (force_minimums ns cnt) = length cnt"
  by (simp add: force_minimums_def)

lemma nth_force_minimums:
  "length cnt = length ns \<Longrightarrow> k < length ns \<Longrightarrow>
   force_minimums ns cnt ! k = (if \<exists>m \<in> set mandatory. first_named ns m k then 1 else cnt ! k)"
  by (simp add: force_minimums_def nth_set_syscall mandatory_def)

subsection \<open>The comparator, the loop and the written blob\<close>

lemma int32_id: "- 2147483648 \<le> x \<Longrightarrow> x \<le> 2147483647 \<Longrightarrow> int32 x = x"
  by (simp add: int32_def signed_take_bit_int_eq_self_iff)

lemma cmp_count_le_0:
  "0 \<le> count a \<Longrightarrow> count a \<le> INT_MAX \<Longrightarrow> 0 \<le> count b \<Longrightarrow> count b \<le> INT_MAX \<Longrightarrow>
   cmp_count a b \<le> 0 \<longleftrightarrow> count b \<le> count a"
  by (simp add: cmp_count_def INT_MAX_def int32_id)

lemma emit_loop_fst:
  "fst (emit_loop ns dbg es) =
     map (\<lambda>e. the (ns ! syscall e))
       (filter (\<lambda>e. ns ! syscall e \<noteq> None) (takeWhile (\<lambda>e. count e \<noteq> 0) es))"
  by (induction es) (auto simp: Let_def split: prod.splits option.splits)

lemma emit_loop_errors:
  "[sc. Error_no_name sc \<leftarrow> snd (emit_loop ns dbg es)] =
     filter (\<lambda>sc. ns ! sc = None) (map syscall (takeWhile (\<lambda>e. count e \<noteq> 0) es))"
  by (induction es) (auto simp: Let_def split: prod.splits option.splits)

lemma map_syscall_fill_sorted: "map syscall (fill_sorted ns cnt) = [0 ..< length ns]"
  by (simp add: fill_sorted_def comp_def)

lemma count_fill_sorted: "e \<in> set (fill_sorted ns cnt) \<Longrightarrow> count e = cnt ! syscall e \<and> syscall e < length ns"
  by (auto simp: fill_sorted_def)

lemma print_syscalls_unfold:
  "print_syscalls qs ns dbg fo pol json cnt =
     (force_minimums ns cnt,
      snd (emit_loop ns dbg (qs cmp_count (fill_sorted ns (force_minimums ns cnt)))) @
      write_blob fo json \<lparr>whitelist = fst (emit_loop ns dbg (qs cmp_count (fill_sorted ns (force_minimums ns cnt)))), policy = pol\<rparr>)"
  by (simp add: print_syscalls_def Let_def split: prod.splits)

lemma force_minimums_range:
  assumes len: "length cnt = length ns"
    and rng: "\<forall>c \<in> set cnt. 0 \<le> c \<and> c \<le> INT_MAX"
  shows "\<forall>c \<in> set (force_minimums ns cnt). 0 \<le> c \<and> c \<le> INT_MAX"
proof
  fix c assume "c \<in> set (force_minimums ns cnt)"
  then obtain k where k: "k < length ns" and c: "c = force_minimums ns cnt ! k"
    using len by (auto simp: in_set_conv_nth)
  have "cnt ! k \<in> set cnt" using k len by simp
  then have "0 \<le> cnt ! k \<and> cnt ! k \<le> INT_MAX" using rng by blast
  then show "0 \<le> c \<and> c \<le> INT_MAX"
    using c nth_force_minimums [OF len k] by (simp add: INT_MAX_def)
qed

lemma sorted_wrt_cmp_count:
  assumes "\<forall>e \<in> set es. 0 \<le> count e \<and> count e \<le> INT_MAX"
    and "sorted_wrt (\<lambda>a b. cmp_count a b \<le> 0) es"
  shows "sorted_wrt (\<lambda>a b. count b \<le> count a) es"
  using assms(2)
  by (rule sorted_wrt_mono_rel [rotated]) (use assms(1) in \<open>simp add: cmp_count_le_0\<close>)

lemma written_emit_loop [simp]: "written (snd (emit_loop ns dbg es)) = []"
  by (induction es) (auto simp: Let_def split: prod.splits option.splits)

lemma written_append [simp]: "written (xs @ ys) = written xs @ written ys"
  by (induction xs rule: written.induct) auto

subsection \<open>The two sorting routines meet the postcondition of qsort\<close>

text \<open>
  For a comparator that orders the elements of the array by a key, as \<^verbatim>\<open>cmp_count\<close> does
  when the counts are within range, both routines return a permutation in which no
  element compares greater than a later one.
\<close>

lemma mset_insert_cmp: "mset (insert_cmp cmp x xs) = add_mset x (mset xs)"
  by (induction xs) simp_all

lemma set_insert_cmp: "set (insert_cmp cmp x xs) = insert x (set xs)"
  by (induction xs) auto

lemma mset_qsort_stable: "mset (qsort_stable cmp xs) = mset xs"
  unfolding qsort_stable_def by (induction xs) (simp_all add: mset_insert_cmp)

lemma mset_foldl_insert_cmp:
  "mset (foldl (\<lambda>acc x. insert_cmp cmp x acc) acc xs) = mset acc + mset xs"
  by (induction xs arbitrary: acc) (simp_all add: mset_insert_cmp)

lemma mset_qsort_unstable: "mset (qsort_unstable cmp xs) = mset xs"
  by (simp add: qsort_unstable_def mset_foldl_insert_cmp)

lemma sorted_insert_cmp:
  assumes key: "\<And>a b. a \<in> S \<Longrightarrow> b \<in> S \<Longrightarrow> cmp a b \<le> 0 \<longleftrightarrow> key b \<le> (key a :: int)"
    and "x \<in> S" "set xs \<subseteq> S"
    and "sorted_wrt (\<lambda>a b. cmp a b \<le> 0) xs"
  shows "sorted_wrt (\<lambda>a b. cmp a b \<le> 0) (insert_cmp cmp x xs)"
  using assms(3,4)
proof (induction xs)
  case Nil
  then show ?case by simp
next
  case (Cons y ys)
  then have y: "y \<in> S" and ys: "set ys \<subseteq> S" by simp_all
  show ?case
  proof (cases "cmp x y \<le> 0")
    case True
    have "cmp x z \<le> 0" if "z \<in> set ys" for z
    proof -
      have "cmp y z \<le> 0" using Cons.prems(2) that by simp
      then have "key z \<le> key y" using key y ys that by blast
      moreover have "key y \<le> key x" using True key y \<open>x \<in> S\<close> by blast
      ultimately show ?thesis using key \<open>x \<in> S\<close> ys that by (meson order_trans subsetD)
    qed
    with True Cons.prems show ?thesis by simp
  next
    case False
    then have "cmp y x \<le> 0"
      using key [OF \<open>x \<in> S\<close> y] key [OF y \<open>x \<in> S\<close>] by linarith
    with False Cons.IH [OF ys] Cons.prems(2) show ?thesis
      by (auto simp: set_insert_cmp)
  qed
qed

lemma sorted_qsort_stable:
  assumes key: "\<And>a b. a \<in> set xs \<Longrightarrow> b \<in> set xs \<Longrightarrow> cmp a b \<le> 0 \<longleftrightarrow> key b \<le> (key a :: int)"
  shows "sorted_wrt (\<lambda>a b. cmp a b \<le> 0) (qsort_stable cmp xs)"
proof -
  have "set ys \<subseteq> set xs \<Longrightarrow> sorted_wrt (\<lambda>a b. cmp a b \<le> 0) (foldr (insert_cmp cmp) ys [])" for ys
  proof (induction ys)
    case Nil
    then show ?case by simp
  next
    case (Cons y ys)
    have "mset (foldr (insert_cmp cmp) ys []) = mset ys"
      using mset_qsort_stable [of cmp ys] by (simp add: qsort_stable_def)
    then have "set (foldr (insert_cmp cmp) ys []) = set ys"
      by (rule mset_eq_setD)
    with Cons show ?case
      by (simp add: sorted_insert_cmp [where S = "set xs" and key = key, OF key])
  qed
  then show ?thesis by (simp add: qsort_stable_def)
qed

lemma sorted_foldl_insert_cmp:
  assumes key: "\<And>a b. a \<in> S \<Longrightarrow> b \<in> S \<Longrightarrow> cmp a b \<le> 0 \<longleftrightarrow> key b \<le> (key a :: int)"
    and "set acc \<subseteq> S" "set xs \<subseteq> S"
    and "sorted_wrt (\<lambda>a b. cmp a b \<le> 0) acc"
  shows "sorted_wrt (\<lambda>a b. cmp a b \<le> 0) (foldl (\<lambda>acc x. insert_cmp cmp x acc) acc xs)"
  using assms(2-)
proof (induction xs arbitrary: acc)
  case Nil
  then show ?case by simp
next
  case (Cons x xs)
  have "sorted_wrt (\<lambda>a b. cmp a b \<le> 0) (insert_cmp cmp x acc)"
    using Cons.prems by (intro sorted_insert_cmp [where S = S and key = key, OF key]) simp_all
  moreover have "set (insert_cmp cmp x acc) \<subseteq> S"
    using Cons.prems by (simp add: set_insert_cmp)
  ultimately show ?case
    using Cons.IH [of "insert_cmp cmp x acc"] Cons.prems by simp
qed

lemma sorted_qsort_unstable:
  assumes "\<And>a b. a \<in> set xs \<Longrightarrow> b \<in> set xs \<Longrightarrow> cmp a b \<le> 0 \<longleftrightarrow> key b \<le> (key a :: int)"
  shows "sorted_wrt (\<lambda>a b. cmp a b \<le> 0) (qsort_unstable cmp xs)"
  unfolding qsort_unstable_def
  by (rule sorted_foldl_insert_cmp [where S = "set xs" and key = key, OF assms]) simp_all

lemma qsort_routines_meet_post:
  assumes "\<forall>e \<in> set xs. 0 \<le> count e \<and> count e \<le> INT_MAX"
  shows "qsort_post cmp_count xs (qsort_stable cmp_count xs)"
    and "qsort_post cmp_count xs (qsort_unstable cmp_count xs)"
proof -
  have key: "cmp_count a b \<le> 0 \<longleftrightarrow> count b \<le> count a" if "a \<in> set xs" "b \<in> set xs" for a b
    using assms that by (simp add: cmp_count_le_0)
  show "qsort_post cmp_count xs (qsort_stable cmp_count xs)"
    unfolding qsort_post_def
    using mset_qsort_stable sorted_qsort_stable [where key = count, OF key] by blast
  show "qsort_post cmp_count xs (qsort_unstable cmp_count xs)"
    unfolding qsort_post_def
    using mset_qsort_unstable sorted_qsort_unstable [where key = count, OF key] by blast
qed

subsection \<open>The loop reaches every counted number of a sorted array\<close>

lemma takeWhile_nonzero_filter:
  assumes "sorted_wrt (\<lambda>a b. count b \<le> count a) es"
    and "\<forall>e \<in> set es. 0 \<le> count e"
  shows "takeWhile (\<lambda>e. count e \<noteq> 0) es = filter (\<lambda>e. count e \<noteq> 0) es"
  using assms
proof (induction es)
  case Nil
  then show ?case by simp
next
  case (Cons e es)
  show ?case
  proof (cases "count e = 0")
    case True
    then have "\<forall>x \<in> set es. count x = 0"
      using Cons.prems by fastforce
    then have "filter (\<lambda>e. count e \<noteq> 0) es = []"
      by (simp add: filter_empty_conv)
    with True show ?thesis by simp
  next
    case False
    with Cons show ?thesis by simp
  qed
qed

lemma reached_all_counted:
  assumes len: "length counts = length ns"
    and rng: "\<forall>c \<in> set counts. 0 \<le> c \<and> c \<le> INT_MAX"
    and post: "qsort_post cmp_count (fill_sorted ns (force_minimums ns counts))
                 (qs cmp_count (fill_sorted ns (force_minimums ns counts)))"
  shows "set (map syscall (takeWhile (\<lambda>e. count e \<noteq> 0)
                (qs cmp_count (fill_sorted ns (force_minimums ns counts))))) =
         {sc. sc < length ns \<and> force_minimums ns counts ! sc \<noteq> 0}"
proof -
  define cnt' where "cnt' = force_minimums ns counts"
  define sorted where "sorted = qs cmp_count (fill_sorted ns cnt')"
  have perm: "mset sorted = mset (fill_sorted ns cnt')"
    and srt: "sorted_wrt (\<lambda>a b. cmp_count a b \<le> 0) sorted"
    using post by (simp_all add: qsort_post_def sorted_def cnt'_def)
  have sets: "set sorted = set (fill_sorted ns cnt')"
    using perm by (rule mset_eq_setD)
  have len': "length cnt' = length ns"
    by (simp add: cnt'_def len)
  have rng': "\<forall>c \<in> set cnt'. 0 \<le> c \<and> c \<le> INT_MAX"
    unfolding cnt'_def using len rng by (rule force_minimums_range)
  have inr: "\<forall>e \<in> set sorted. 0 \<le> count e \<and> count e \<le> INT_MAX"
  proof
    fix e assume "e \<in> set sorted"
    then have "count e = cnt' ! syscall e" "syscall e < length ns"
      using sets count_fill_sorted by blast+
    then have "count e \<in> set cnt'" using len' by simp
    then show "0 \<le> count e \<and> count e \<le> INT_MAX" using rng' by blast
  qed
  then have "sorted_wrt (\<lambda>a b. count b \<le> count a) sorted"
    using srt by (rule sorted_wrt_cmp_count)
  then have tw: "takeWhile (\<lambda>e. count e \<noteq> 0) sorted = filter (\<lambda>e. count e \<noteq> 0) sorted"
    using inr by (intro takeWhile_nonzero_filter) auto
  have "set (map syscall (filter (\<lambda>e. count e \<noteq> 0) sorted)) =
        {sc. sc < length ns \<and> cnt' ! sc \<noteq> 0}"
  proof (intro set_eqI iffI)
    fix sc assume "sc \<in> set (map syscall (filter (\<lambda>e. count e \<noteq> 0) sorted))"
    then obtain e where "e \<in> set sorted" "count e \<noteq> 0" "sc = syscall e" by auto
    then show "sc \<in> {sc. sc < length ns \<and> cnt' ! sc \<noteq> 0}"
      using sets count_fill_sorted by auto
  next
    fix sc assume "sc \<in> {sc. sc < length ns \<and> cnt' ! sc \<noteq> 0}"
    then have sc: "sc < length ns" "cnt' ! sc \<noteq> 0" by simp_all
    let ?e = "\<lparr>syscall = sc, count = cnt' ! sc\<rparr>"
    have "?e \<in> set sorted"
      using sc sets by (simp add: fill_sorted_def)
    with sc have "?e \<in> set (filter (\<lambda>e. count e \<noteq> 0) sorted)" by simp
    then have "syscall ?e \<in> set (map syscall (filter (\<lambda>e. count e \<noteq> 0) sorted))"
      unfolding set_map by (rule imageI)
    then show "sc \<in> set (map syscall (filter (\<lambda>e. count e \<noteq> 0) sorted))" by simp
  qed
  then have "set (map syscall (takeWhile (\<lambda>e. count e \<noteq> 0) sorted)) =
        {sc. sc < length ns \<and> cnt' ! sc \<noteq> 0}"
    by (simp only: tw)
  then show ?thesis
    unfolding sorted_def cnt'_def .
qed

section \<open>Claims about the policy emitter\<close>

text \<open>
  Claim C1, as the code has it. \<^verbatim>\<open>cmp_count\<close> compares counts only, so the array that
  \<^verbatim>\<open>qsort\<close> returns holds every syscall number once, each with its count after the forced
  entries, in order of descending count, provided no count is negative or above
  \<^verbatim>\<open>INT_MAX\<close> (the subtraction then cannot overflow). The whitelist is read off that array
  in its order. Nothing is said about two numbers of equal count: their order is the one
  \<^verbatim>\<open>qsort\<close> leaves them in.
\<close>

theorem C1_sorted_by_count:
  assumes len: "length counts = length syscall_names"
    and rng: "\<forall>c \<in> set counts. 0 \<le> c \<and> c \<le> INT_MAX"
    and post: "qsort_post cmp_count
                 (fill_sorted syscall_names (force_minimums syscall_names counts))
                 (qsort cmp_count
                   (fill_sorted syscall_names (force_minimums syscall_names counts)))"
  shows "let counts' = force_minimums syscall_names counts;
             sorted = qsort cmp_count (fill_sorted syscall_names counts')
         in mset (map syscall sorted) = mset [0 ..< length syscall_names] \<and>
            (\<forall>e \<in> set sorted. count e = counts' ! syscall e) \<and>
            sorted_wrt (\<lambda>a b. count b \<le> count a) sorted \<and>
            snd (print_syscalls qsort syscall_names debug fopen_ok policy_id json counts) =
              snd (emit_loop syscall_names debug sorted) @
              write_blob fopen_ok json
                \<lparr>whitelist =
                   map (\<lambda>e. the (syscall_names ! syscall e))
                     (filter (\<lambda>e. syscall_names ! syscall e \<noteq> None)
                       (takeWhile (\<lambda>e. count e \<noteq> 0) sorted)),
                 policy = policy_id\<rparr>"
proof -
  define cnt' where "cnt' = force_minimums syscall_names counts"
  define arr where "arr = fill_sorted syscall_names cnt'"
  define sorted where "sorted = qsort cmp_count arr"
  have perm: "mset sorted = mset arr"
    and srt: "sorted_wrt (\<lambda>a b. cmp_count a b \<le> 0) sorted"
    using post by (simp_all add: qsort_post_def sorted_def arr_def cnt'_def)
  have sets: "set sorted = set arr"
    using perm by (rule mset_eq_setD)
  have "mset (map syscall sorted) = mset (map syscall arr)"
    using perm by (metis mset_map)
  then have a: "mset (map syscall sorted) = mset [0 ..< length syscall_names]"
    by (simp add: arr_def map_syscall_fill_sorted)
  have b: "\<forall>e \<in> set sorted. count e = cnt' ! syscall e"
    using sets count_fill_sorted by (auto simp: arr_def)
  have len': "length cnt' = length syscall_names"
    by (simp add: cnt'_def len)
  have rng': "\<forall>c \<in> set cnt'. 0 \<le> c \<and> c \<le> INT_MAX"
    unfolding cnt'_def using len rng by (rule force_minimums_range)
  have "\<forall>e \<in> set sorted. 0 \<le> count e \<and> count e \<le> INT_MAX"
  proof
    fix e assume e: "e \<in> set sorted"
    then have "e \<in> set (fill_sorted syscall_names cnt')"
      using sets by (simp add: arr_def)
    then have "count e = cnt' ! syscall e" "syscall e < length syscall_names"
      using count_fill_sorted by blast+
    then have "count e \<in> set cnt'" using len' by simp
    then show "0 \<le> count e \<and> count e \<le> INT_MAX" using rng' by blast
  qed
  then have c: "sorted_wrt (\<lambda>a b. count b \<le> count a) sorted"
    using srt by (rule sorted_wrt_cmp_count)
  have d: "snd (print_syscalls qsort syscall_names debug fopen_ok policy_id json counts) =
      snd (emit_loop syscall_names debug sorted) @
      write_blob fopen_ok json
        \<lparr>whitelist =
           map (\<lambda>e. the (syscall_names ! syscall e))
             (filter (\<lambda>e. syscall_names ! syscall e \<noteq> None)
               (takeWhile (\<lambda>e. count e \<noteq> 0) sorted)),
         policy = policy_id\<rparr>"
    by (simp add: print_syscalls_unfold emit_loop_fst sorted_def arr_def cnt'_def)
  show ?thesis
    using a b c d by (simp add: Let_def sorted_def arr_def cnt'_def)
qed

theorem C1_sorted_by_count_witness:
  "length [2, 0, 3, 5 :: int] = length [Some ''read'', Some ''write'', None, Some ''exit''] \<and>
   list_all (\<lambda>c. 0 \<le> c \<and> c \<le> INT_MAX) [2, 0, 3, 5 :: int] \<and>
   qsort_post cmp_count
     (fill_sorted [Some ''read'', Some ''write'', None, Some ''exit'']
       (force_minimums [Some ''read'', Some ''write'', None, Some ''exit''] [2, 0, 3, 5]))
     (qsort_stable cmp_count
       (fill_sorted [Some ''read'', Some ''write'', None, Some ''exit'']
         (force_minimums [Some ''read'', Some ''write'', None, Some ''exit''] [2, 0, 3, 5]))) \<and>
   sorted_wrt (\<lambda>a b. count b \<le> count a)
     (qsort_stable cmp_count
       (fill_sorted [Some ''read'', Some ''write'', None, Some ''exit'']
         (force_minimums [Some ''read'', Some ''write'', None, Some ''exit''] [2, 0, 3, 5]))) \<and>
   snd (print_syscalls qsort_stable [Some ''read'', Some ''write'', None, Some ''exit'']
          False (\<lambda>p. True) 7 None [2, 0, 3, 5]) =
     [Error_no_name 2, Printf_stdout \<lparr>whitelist = [''read'', ''exit''], policy = 7\<rparr>]"
proof -
  let ?ns = "[Some ''read'', Some ''write'', None, Some ''exit'']"
  let ?cnt = "[2, 0, 3, 5 :: int]"
  have srt: "qsort_stable cmp_count (fill_sorted ?ns (force_minimums ?ns ?cnt)) =
      [\<lparr>syscall = 2, count = 3\<rparr>, \<lparr>syscall = 0, count = 2\<rparr>,
       \<lparr>syscall = 3, count = 1\<rparr>, \<lparr>syscall = 1, count = 0\<rparr>]"
    by code_simp
  have arr: "fill_sorted ?ns (force_minimums ?ns ?cnt) =
      [\<lparr>syscall = 0, count = 2\<rparr>, \<lparr>syscall = 1, count = 0\<rparr>,
       \<lparr>syscall = 2, count = 3\<rparr>, \<lparr>syscall = 3, count = 1\<rparr>]"
    by code_simp
  have h1: "length ?cnt = length ?ns" by simp
  have h2: "\<forall>c \<in> set ?cnt. 0 \<le> c \<and> c \<le> INT_MAX" by (simp add: INT_MAX_def)
  have h3: "qsort_post cmp_count (fill_sorted ?ns (force_minimums ?ns ?cnt))
              (qsort_stable cmp_count (fill_sorted ?ns (force_minimums ?ns ?cnt)))"
    unfolding qsort_post_def srt by (simp add: arr cmp_count_def int32_def)
  show ?thesis
    using h1 h2 h3 C1_sorted_by_count [where qsort = qsort_stable and debug = False
        and fopen_ok = "\<lambda>p. True" and policy_id = 7 and json = None, OF h1 h2 h3]
    by (simp add: Let_def write_blob_def srt)
qed

text \<open>
  Claim C1 as it is written fails: numbers 5 and 9 are both counted once and nothing else
  is counted. A sorting routine that meets the postcondition of \<^verbatim>\<open>qsort\<close> on this very
  array puts 9 before 5, and the whitelist names B before A.
\<close>

theorem C1_tie_order_counterexample:
  "qsort_post cmp_count
     (fill_sorted [None, None, None, None, None, Some ''A'', None, None, None, Some ''B'']
       (force_minimums [None, None, None, None, None, Some ''A'', None, None, None, Some ''B'']
         [0, 0, 0, 0, 0, 1, 0, 0, 0, 1]))
     (qsort_unstable cmp_count
       (fill_sorted [None, None, None, None, None, Some ''A'', None, None, None, Some ''B'']
         (force_minimums [None, None, None, None, None, Some ''A'', None, None, None, Some ''B'']
           [0, 0, 0, 0, 0, 1, 0, 0, 0, 1]))) \<and>
   snd (print_syscalls qsort_unstable
          [None, None, None, None, None, Some ''A'', None, None, None, Some ''B'']
          False (\<lambda>p. True) 7 None [0, 0, 0, 0, 0, 1, 0, 0, 0, 1]) =
     [Printf_stdout \<lparr>whitelist = [''B'', ''A''], policy = 7\<rparr>]"
proof -
  let ?ns = "[None, None, None, None, None, Some ''A'', None, None, None, Some ''B'']"
  let ?cnt = "[0, 0, 0, 0, 0, 1, 0, 0, 0, 1 :: int]"
  have arr: "fill_sorted ?ns (force_minimums ?ns ?cnt) =
      [\<lparr>syscall = 0, count = 0\<rparr>, \<lparr>syscall = 1, count = 0\<rparr>, \<lparr>syscall = 2, count = 0\<rparr>,
       \<lparr>syscall = 3, count = 0\<rparr>, \<lparr>syscall = 4, count = 0\<rparr>, \<lparr>syscall = 5, count = 1\<rparr>,
       \<lparr>syscall = 6, count = 0\<rparr>, \<lparr>syscall = 7, count = 0\<rparr>, \<lparr>syscall = 8, count = 0\<rparr>,
       \<lparr>syscall = 9, count = 1\<rparr>]"
    by code_simp
  have srt: "qsort_unstable cmp_count (fill_sorted ?ns (force_minimums ?ns ?cnt)) =
      [\<lparr>syscall = 9, count = 1\<rparr>, \<lparr>syscall = 5, count = 1\<rparr>, \<lparr>syscall = 8, count = 0\<rparr>,
       \<lparr>syscall = 7, count = 0\<rparr>, \<lparr>syscall = 6, count = 0\<rparr>, \<lparr>syscall = 4, count = 0\<rparr>,
       \<lparr>syscall = 3, count = 0\<rparr>, \<lparr>syscall = 2, count = 0\<rparr>, \<lparr>syscall = 1, count = 0\<rparr>,
       \<lparr>syscall = 0, count = 0\<rparr>]"
    by code_simp
  have "qsort_post cmp_count (fill_sorted ?ns (force_minimums ?ns ?cnt))
          (qsort_unstable cmp_count (fill_sorted ?ns (force_minimums ?ns ?cnt)))"
    unfolding qsort_post_def srt by (simp add: arr cmp_count_def int32_def)
  moreover have "snd (print_syscalls qsort_unstable ?ns False (\<lambda>p. True) 7 None ?cnt) =
      [Printf_stdout \<lparr>whitelist = [''B'', ''A''], policy = 7\<rparr>]"
    unfolding print_syscalls_unfold srt by (simp add: write_blob_def)
  ultimately show ?thesis by blast
qed

text \<open>
  Claim C2, as the code has it. \<^verbatim>\<open>set_syscall\<close> stores the value 1: after the forced
  entries, the first slot that bears a mandatory name holds exactly 1, whatever it held
  before, and every other slot holds what it held. A mandatory name that the table lacks
  changes nothing.
\<close>

theorem C2_forcing_stores_one:
  assumes len: "length counts = length syscall_names"
    and i: "i < length syscall_names"
  shows "length (force_minimums syscall_names counts) = length counts \<and>
         force_minimums syscall_names counts ! i =
           (if \<exists>name \<in> set mandatory. first_named syscall_names name i then 1
            else counts ! i)"
  using nth_force_minimums [OF len i] by simp

theorem C2_forcing_stores_one_witness:
  "length [5, 0, 4 :: int] = length [Some ''exit'', Some ''rt_sigaction'', Some ''read''] \<and>
   (0::nat) < length [Some ''exit'', Some ''rt_sigaction'', Some ''read''] \<and>
   (\<exists>name \<in> set mandatory. first_named [Some ''exit'', Some ''rt_sigaction'', Some ''read''] name 0) \<and>
   force_minimums [Some ''exit'', Some ''rt_sigaction'', Some ''read''] [5, 0, 4] ! 0 = 1"
proof -
  let ?ns = "[Some ''exit'', Some ''rt_sigaction'', Some ''read'']"
  have h1: "length [5, 0, 4 :: int] = length ?ns" by simp
  have h2: "(0::nat) < length ?ns" by simp
  have h3: "\<exists>name \<in> set mandatory. first_named ?ns name 0"
    by (simp add: mandatory_def first_named_def)
  show ?thesis
    using h1 h2 h3 C2_forcing_stores_one [OF h1 h2] by simp
qed

text \<open>
  Claim C2 as it is written fails: \<^verbatim>\<open>exit\<close> was observed five times and its count after
  the forced entries is 1, not 5.
\<close>

theorem C2_count_lowered_counterexample:
  "[5 :: int] ! 0 \<noteq> 0 \<and> force_minimums [Some ''exit''] [5] ! 0 \<noteq> [5] ! 0"
  by (simp add: force_minimums_def set_syscall_def set_syscall_from.simps)

text \<open>
  Claim C4, as the code has it. The blob goes to the file when there is a path and the
  file opens; when the file does not open, the failure is logged and the blob is written
  nowhere; it goes to the standard output only when there is no path at all, that is when
  \<^verbatim>\<open>-f\<close> was not given and \<^verbatim>\<open>asprintf\<close> failed. Nothing before that point writes a blob.
\<close>

theorem C4_destination:
  "\<exists>out b. snd (main_emit qsort syscall_names debug fopen_ok asprintf_result policy_id json
                   counts) =
            out @ (case (case json of Some path \<Rightarrow> Some path | None \<Rightarrow> asprintf_result) of
                     Some path \<Rightarrow>
                       if fopen_ok path then [Fprintf_file path b, Info_saving path]
                       else [Error_failed_open path]
                   | None \<Rightarrow> [Printf_stdout b]) \<and>
            written out = [] \<and> policy b = policy_id \<and>
            whitelist b =
              fst (emit_loop syscall_names debug
                    (qsort cmp_count
                      (fill_sorted syscall_names (force_minimums syscall_names counts))))"
proof -
  let ?sorted = "qsort cmp_count
      (fill_sorted syscall_names (force_minimums syscall_names counts))"
  let ?b = "\<lparr>whitelist = fst (emit_loop syscall_names debug ?sorted), policy = policy_id\<rparr>"
  let ?log = "case json of Some path \<Rightarrow> []
              | None \<Rightarrow> (case asprintf_result of Some path \<Rightarrow> [] | None \<Rightarrow> [Error_alloc_path])"
  let ?out = "?log @ snd (emit_loop syscall_names debug ?sorted)"
  have "snd (main_emit qsort syscall_names debug fopen_ok asprintf_result policy_id json
               counts) =
        ?out @ (case (case json of Some path \<Rightarrow> Some path | None \<Rightarrow> asprintf_result) of
                  Some path \<Rightarrow>
                    if fopen_ok path then [Fprintf_file path ?b, Info_saving path]
                    else [Error_failed_open path]
                | None \<Rightarrow> [Printf_stdout ?b])"
    by (simp add: main_emit_def print_syscalls_unfold write_blob_def split: option.splits)
  moreover have "written ?out = []"
    by (simp split: option.splits)
  ultimately show ?thesis
    by (intro exI [of _ ?out] exI [of _ ?b]) simp
qed

text \<open>
  Claim C4 as it is written fails: with \<^verbatim>\<open>-f /nonexistent/x\<close> and a file that cannot be
  opened, the only output is the logged failure; the whitelist reaches neither a file nor
  the standard output.
\<close>

theorem C4_artifact_dropped_counterexample:
  "main_emit qsort_stable [Some ''read''] False (\<lambda>path. False) None 7 (Some ''/nonexistent/x'') [3] =
     ([3], [Error_failed_open ''/nonexistent/x''])"
proof -
  have "qsort_stable cmp_count (fill_sorted [Some ''read''] (force_minimums [Some ''read''] [3])) =
          [\<lparr>syscall = 0, count = 3\<rparr>]"
    by code_simp
  moreover have "force_minimums [Some ''read''] [3] = [3]"
    by code_simp
  ultimately show ?thesis
    by (simp add: main_emit_def print_syscalls_unfold write_blob_def)
qed

text \<open>
  Claim C8. Whatever permutation \<^verbatim>\<open>qsort\<close> returns, the loop reaches only numbers of the
  table whose count after the forced entries is not zero. The whitelist is the names of
  those reached numbers that have one, in order; a reached number without a name is
  logged, adds nothing to the whitelist, and the blob is written all the same. When the
  returned array is also in the comparator's order and no count is negative or above
  \<^verbatim>\<open>INT_MAX\<close>, the reached numbers are all the numbers whose count is not zero.
\<close>

theorem C8_emitted_are_counted_and_named:
  assumes len: "length counts = length syscall_names"
    and perm: "mset (qsort cmp_count
                      (fill_sorted syscall_names (force_minimums syscall_names counts))) =
               mset (fill_sorted syscall_names (force_minimums syscall_names counts))"
  shows "let counts' = force_minimums syscall_names counts;
             sorted = qsort cmp_count (fill_sorted syscall_names counts');
             reached = map syscall (takeWhile (\<lambda>e. count e \<noteq> 0) sorted);
             emitted = filter (\<lambda>sc. syscall_names ! sc \<noteq> None) reached;
             unnamed = filter (\<lambda>sc. syscall_names ! sc = None) reached
         in (\<forall>sc \<in> set emitted. sc < length syscall_names \<and> counts' ! sc \<noteq> 0 \<and>
                                 (\<exists>nm. syscall_names ! sc = Some nm)) \<and>
            (\<forall>sc \<in> set unnamed. sc < length syscall_names \<and> counts' ! sc \<noteq> 0) \<and>
            [sc. Error_no_name sc \<leftarrow>
                   snd (print_syscalls qsort syscall_names debug fopen_ok policy_id json
                         counts)] = unnamed \<and>
            snd (print_syscalls qsort syscall_names debug fopen_ok policy_id json counts) =
              snd (emit_loop syscall_names debug sorted) @
              write_blob fopen_ok json
                \<lparr>whitelist = map (\<lambda>sc. the (syscall_names ! sc)) emitted, policy = policy_id\<rparr> \<and>
            ((\<forall>c \<in> set counts. 0 \<le> c \<and> c \<le> INT_MAX) \<and>
             sorted_wrt (\<lambda>a b. cmp_count a b \<le> 0) sorted \<longrightarrow>
             set reached = {sc. sc < length syscall_names \<and> counts' ! sc \<noteq> 0})"
proof -
  define cnt' where "cnt' = force_minimums syscall_names counts"
  define sorted where "sorted = qsort cmp_count (fill_sorted syscall_names cnt')"
  define reached where "reached = map syscall (takeWhile (\<lambda>e. count e \<noteq> 0) sorted)"
  have sets: "set sorted = set (fill_sorted syscall_names cnt')"
    using perm unfolding sorted_def cnt'_def by (rule mset_eq_setD)
  have reached: "sc < length syscall_names \<and> cnt' ! sc \<noteq> 0" if "sc \<in> set reached" for sc
  proof -
    from that obtain e where e: "e \<in> set (takeWhile (\<lambda>e. count e \<noteq> 0) sorted)" "sc = syscall e"
      by (auto simp: reached_def)
    then have "count e \<noteq> 0" "e \<in> set sorted"
      by (auto dest: set_takeWhileD)
    then show ?thesis
      using sets count_fill_sorted e(2) by auto
  qed
  have wl: "fst (emit_loop syscall_names debug sorted) =
      map (\<lambda>sc. the (syscall_names ! sc)) (filter (\<lambda>sc. syscall_names ! sc \<noteq> None) reached)"
    by (simp add: emit_loop_fst reached_def filter_map comp_def)
  have errs: "[sc. Error_no_name sc \<leftarrow> write_blob fopen_ok json b] = []" for b
    by (simp add: write_blob_def split: option.splits)
  have a: "\<forall>sc \<in> set (filter (\<lambda>sc. syscall_names ! sc \<noteq> None) reached).
             sc < length syscall_names \<and> cnt' ! sc \<noteq> 0 \<and> (\<exists>nm. syscall_names ! sc = Some nm)"
    using reached by auto
  have b: "\<forall>sc \<in> set (filter (\<lambda>sc. syscall_names ! sc = None) reached).
             sc < length syscall_names \<and> cnt' ! sc \<noteq> 0"
    using reached by auto
  have c: "[sc. Error_no_name sc \<leftarrow>
              snd (print_syscalls qsort syscall_names debug fopen_ok policy_id json counts)] =
           filter (\<lambda>sc. syscall_names ! sc = None) reached"
    using emit_loop_errors [of syscall_names debug sorted]
    by (simp add: print_syscalls_unfold errs reached_def sorted_def cnt'_def)
  have d: "snd (print_syscalls qsort syscall_names debug fopen_ok policy_id json counts) =
      snd (emit_loop syscall_names debug sorted) @
      write_blob fopen_ok json
        \<lparr>whitelist = map (\<lambda>sc. the (syscall_names ! sc))
                       (filter (\<lambda>sc. syscall_names ! sc \<noteq> None) reached),
         policy = policy_id\<rparr>"
    using wl by (simp add: print_syscalls_unfold sorted_def cnt'_def)
  have e: "(\<forall>c \<in> set counts. 0 \<le> c \<and> c \<le> INT_MAX) \<and>
           sorted_wrt (\<lambda>a b. cmp_count a b \<le> 0) sorted \<longrightarrow>
           set reached = {sc. sc < length syscall_names \<and> cnt' ! sc \<noteq> 0}"
  proof
    assume r: "(\<forall>c \<in> set counts. 0 \<le> c \<and> c \<le> INT_MAX) \<and>
               sorted_wrt (\<lambda>a b. cmp_count a b \<le> 0) sorted"
    then have post: "qsort_post cmp_count
        (fill_sorted syscall_names (force_minimums syscall_names counts))
        (qsort cmp_count (fill_sorted syscall_names (force_minimums syscall_names counts)))"
      using perm by (simp add: qsort_post_def sorted_def cnt'_def)
    from r have rng: "\<forall>c \<in> set counts. 0 \<le> c \<and> c \<le> INT_MAX" by simp
    show "set reached = {sc. sc < length syscall_names \<and> cnt' ! sc \<noteq> 0}"
      unfolding reached_def sorted_def cnt'_def
      by (rule reached_all_counted [where qs = qsort, OF len rng post])
  qed
  show ?thesis
    using a b c d e unfolding Let_def reached_def sorted_def cnt'_def by blast
qed

theorem C8_emitted_are_counted_and_named_witness:
  "length [2, 0, 3, 5 :: int] = length [Some ''read'', Some ''write'', None, Some ''exit''] \<and>
   mset (qsort_unstable cmp_count
          (fill_sorted [Some ''read'', Some ''write'', None, Some ''exit'']
            (force_minimums [Some ''read'', Some ''write'', None, Some ''exit''] [2, 0, 3, 5]))) =
   mset (fill_sorted [Some ''read'', Some ''write'', None, Some ''exit'']
          (force_minimums [Some ''read'', Some ''write'', None, Some ''exit''] [2, 0, 3, 5])) \<and>
   [sc. Error_no_name sc \<leftarrow>
          snd (print_syscalls qsort_unstable [Some ''read'', Some ''write'', None, Some ''exit'']
                True (\<lambda>p. True) 7 (Some ''/tmp/t.json'') [2, 0, 3, 5])] = [2] \<and>
   snd (print_syscalls qsort_unstable [Some ''read'', Some ''write'', None, Some ''exit'']
          True (\<lambda>p. True) 7 (Some ''/tmp/t.json'') [2, 0, 3, 5]) =
     [Error_no_name 2, Printf_called 0 ''read'' 2, Printf_called 3 ''exit'' 1,
      Fprintf_file ''/tmp/t.json'' \<lparr>whitelist = [''read'', ''exit''], policy = 7\<rparr>,
      Info_saving ''/tmp/t.json'']"
proof -
  let ?ns = "[Some ''read'', Some ''write'', None, Some ''exit'']"
  let ?cnt = "[2, 0, 3, 5 :: int]"
  have srt: "qsort_unstable cmp_count (fill_sorted ?ns (force_minimums ?ns ?cnt)) =
      [\<lparr>syscall = 2, count = 3\<rparr>, \<lparr>syscall = 0, count = 2\<rparr>,
       \<lparr>syscall = 3, count = 1\<rparr>, \<lparr>syscall = 1, count = 0\<rparr>]"
    by code_simp
  have arr: "fill_sorted ?ns (force_minimums ?ns ?cnt) =
      [\<lparr>syscall = 0, count = 2\<rparr>, \<lparr>syscall = 1, count = 0\<rparr>,
       \<lparr>syscall = 2, count = 3\<rparr>, \<lparr>syscall = 3, count = 1\<rparr>]"
    by code_simp
  have h1: "length ?cnt = length ?ns" by simp
  have h2: "mset (qsort_unstable cmp_count (fill_sorted ?ns (force_minimums ?ns ?cnt))) =
            mset (fill_sorted ?ns (force_minimums ?ns ?cnt))"
    unfolding srt by (simp add: arr)
  show ?thesis
    using h1 h2 C8_emitted_are_counted_and_named [where qsort = qsort_unstable and debug = True
        and fopen_ok = "\<lambda>p. True" and policy_id = 7 and json = "Some ''/tmp/t.json''", OF h1 h2]
    by (simp add: Let_def write_blob_def srt)
qed

section \<open>The tracer\<close>

subsection \<open>The macros of the wait status, in arithmetic\<close>

lemma and_mask_mod: "(x::int) AND mask n = x mod 2 ^ n"
  by (simp add: take_bit_eq_mod flip: take_bit_eq_mask)

lemma and_0xff: "(x::int) AND 0xff = x mod 256"
  using and_mask_mod [of x 8] by (simp add: mask_eq_exp_minus_1)

lemma and_0x7f: "(x::int) AND 0x7f = x mod 128"
  using and_mask_mod [of x 7] by (simp add: mask_eq_exp_minus_1)

lemma and_0xffff: "(x::int) AND 0xffff = x mod 65536"
  using and_mask_mod [of x 16] by (simp add: mask_eq_exp_minus_1)

lemma and_0x80_iff: "(x::int) AND 0x80 \<noteq> 0 \<longleftrightarrow> odd (x div 128)"
  using bit_iff_and_push_bit_not_eq_0 [of x 7] by (simp add: bit_iff_odd)

lemma WSTOPSIG_eq: "WSTOPSIG s = s div 256 mod 256"
proof -
  have "drop_bit 8 (s AND 0xff00) = drop_bit 8 s AND drop_bit 8 0xff00"
    by (rule drop_bit_and)
  also have "drop_bit 8 (0xff00 :: int) = 0xff"
    by (simp add: drop_bit_eq_div)
  finally show ?thesis
    by (simp add: WSTOPSIG_def WEXITSTATUS_def and_0xff drop_bit_eq_div)
qed

lemma WTERMSIG_eq: "WTERMSIG s = s mod 128"
  by (simp add: WTERMSIG_def and_0x7f)

lemma WIFSTOPPED_Glibc_iff: "WIFSTOPPED Glibc s \<longleftrightarrow> s mod 256 = 127"
  by (simp add: and_0xff)

lemma WIFSIGNALED_Glibc_iff: "WIFSIGNALED Glibc s \<longleftrightarrow> 1 \<le> s mod 128 \<and> s mod 128 \<le> 126"
proof (cases "s mod 128 = 127")
  case True
  then show ?thesis by (simp add: and_0x7f drop_bit_eq_div)
next
  case False
  have "0 \<le> s mod 128" "s mod 128 < 128" by simp_all
  with False have r: "- 128 \<le> s mod 128 + 1" "s mod 128 + 1 < 128" by linarith+
  then have "signed_take_bit 7 (s mod 128 + 1) = s mod 128 + 1"
    by (simp add: signed_take_bit_int_eq_self_iff)
  then show ?thesis
    using r by (simp add: and_0x7f drop_bit_eq_div) linarith
qed

lemma WIFSIGNALED_Musl_iff: "WIFSIGNALED Musl s \<longleftrightarrow> 1 \<le> s mod 65536 \<and> s mod 65536 \<le> 255"
proof (cases "s mod 65536 = 0")
  case True
  then show ?thesis by (simp add: and_0xffff mask_eq_exp_minus_1)
next
  case False
  have "0 \<le> s mod 65536" "s mod 65536 < 65536" by simp_all
  with False have r: "0 \<le> s mod 65536 - 1" "s mod 65536 - 1 < 4294967296" by linarith+
  then have "take_bit 32 (s mod 65536 - 1) = s mod 65536 - 1"
    by (simp add: take_bit_int_eq_self)
  then show ?thesis
    using r by (simp add: and_0xffff) linarith
qed

lemma WIFSTOPPED_Musl_iff: "WIFSTOPPED Musl s \<longleftrightarrow> s mod 256 = 127 \<and> 0 < s div 256 mod 256"
proof -
  define l where "l = s mod 256"
  define h where "h = s div 256 mod 256"
  have l: "0 \<le> l" "l < 256" and h: "0 \<le> h" "h < 256" by (simp_all add: l_def h_def)
  have "s mod 65536 = (s div 256 mod 256) * 256 + s mod 256"
    using zmod_zmult2_eq [of 256 s 256] by simp
  then have x: "s mod 65536 = h * 256 + l"
    by (simp add: l_def h_def)
  have "0 \<le> (h * 256 + l) * 65537" "(h * 256 + l) * 65537 < 4294967296"
    using l h by auto
  then have tb: "take_bit 32 ((h * 256 + l) * 65537) = (h * 256 + l) * 65537"
    by (simp add: take_bit_int_eq_self)
  have "(h * 256 + l) * 65537 = (h * 65536 + l * 256 + h) * 256 + l"
    by simp
  then have db: "drop_bit 8 ((h * 256 + l) * 65537) = h * 65536 + l * 256 + h"
    using l by (simp add: drop_bit_eq_div)
  have "(h * 65536 + (l * 256 + h + 32768)) mod 65536 = (l * 256 + h + 32768) mod 65536"
    by (rule mod_mult_self3)
  then have "(h * 65536 + l * 256 + h + 32768) mod 65536 = (l * 256 + h + 32768) mod 65536"
    by (simp only: add.assoc)
  also have "\<dots> = (if l < 128 then l * 256 + h + 32768 else l * 256 + h - 32768)"
  proof (cases "l < 128")
    case True
    then have "0 \<le> l * 256 + h + 32768" "l * 256 + h + 32768 < 65536"
      using l h by linarith+
    then show ?thesis using True by simp
  next
    case False
    then have "0 \<le> l * 256 + h - 32768" "l * 256 + h - 32768 < 65536"
      using l h by linarith+
    then have "(l * 256 + h - 32768) mod 65536 = l * 256 + h - 32768"
      by simp
    moreover have "(l * 256 + h + 32768) mod 65536 = (l * 256 + h - 32768) mod 65536"
      using mod_add_self2 [of "l * 256 + h - 32768" 65536] by (simp add: add.commute)
    ultimately show ?thesis using False by simp
  qed
  finally have st: "signed_take_bit 15 (h * 65536 + l * 256 + h) =
      (if l < 128 then l * 256 + h else l * 256 + h - 65536)"
    by (simp add: signed_take_bit_eq_take_bit_shift take_bit_eq_mod)
  show ?thesis
    unfolding WIFSTOPPED.simps and_0xffff x tb db st
    using l h unfolding l_def [symmetric] h_def [symmetric] by auto
qed

subsection \<open>The macros on a status word given by its three parts\<close>

declare WIFSTOPPED.simps [simp del] WIFSIGNALED.simps [simp del]

lemma div256: "0 \<le> r \<Longrightarrow> r < 256 \<Longrightarrow> (a * 256 + r) div 256 = (a::int)"
  by simp

lemma mod256: "0 \<le> r \<Longrightarrow> r < 256 \<Longrightarrow> (a * 256 + r) mod 256 = (r::int)"
  by simp

lemma div65536: "0 \<le> r \<Longrightarrow> r < 65536 \<Longrightarrow> (a * 65536 + r) div 65536 = (a::int)"
  by simp

lemma mod65536: "0 \<le> r \<Longrightarrow> r < 65536 \<Longrightarrow> (a * 65536 + r) mod 65536 = (r::int)"
  by simp

lemma sw_bytes: "status_word ev sig low = (ev * 256 + sig) * 256 + low"
  by (simp add: status_word_def)

lemma sw_halves: "status_word ev sig low = ev * 65536 + (sig * 256 + low)"
  by (simp add: status_word_def)

lemma sw_mod256: "0 \<le> low \<Longrightarrow> low < 256 \<Longrightarrow> status_word ev sig low mod 256 = low"
  unfolding sw_bytes by (rule mod256)

lemma sw_div256: "0 \<le> low \<Longrightarrow> low < 256 \<Longrightarrow> status_word ev sig low div 256 = ev * 256 + sig"
  unfolding sw_bytes by (rule div256)

lemma low_half:
  "0 \<le> sig \<Longrightarrow> sig < 256 \<Longrightarrow> 0 \<le> low \<Longrightarrow> low < 256 \<Longrightarrow>
   0 \<le> sig * 256 + low \<and> sig * 256 + low < (65536::int)"
  by linarith

lemma sw_div65536:
  "0 \<le> sig \<Longrightarrow> sig < 256 \<Longrightarrow> 0 \<le> low \<Longrightarrow> low < 256 \<Longrightarrow>
   status_word ev sig low div 65536 = ev"
  unfolding sw_halves using low_half [of sig low] by (intro div65536) simp_all

lemma sw_mod65536:
  "0 \<le> sig \<Longrightarrow> sig < 256 \<Longrightarrow> 0 \<le> low \<Longrightarrow> low < 256 \<Longrightarrow>
   status_word ev sig low mod 65536 = sig * 256 + low"
  unfolding sw_halves using low_half [of sig low] by (intro mod65536) simp_all

lemma sw_mod128: "status_word ev sig low mod 128 = low mod 128"
proof -
  have "status_word ev sig low = low + (ev * 512 + sig * 2) * 128"
    by (simp add: status_word_def)
  then show ?thesis by (simp only: mod_mult_self1)
qed

lemma sw_sig:
  "0 \<le> sig \<Longrightarrow> sig < 256 \<Longrightarrow> 0 \<le> low \<Longrightarrow> low < 256 \<Longrightarrow>
   status_word ev sig low div 256 mod 256 = sig"
  by (simp only: sw_div256 mod256)

lemma WSTOPSIG_sw:
  "0 \<le> sig \<Longrightarrow> sig < 256 \<Longrightarrow> 0 \<le> low \<Longrightarrow> low < 256 \<Longrightarrow>
   WSTOPSIG (status_word ev sig low) = sig"
  by (simp only: WSTOPSIG_eq sw_sig)

lemma WTERMSIG_sw: "WTERMSIG (status_word ev sig low) = low mod 128"
  by (simp only: WTERMSIG_eq sw_mod128)

lemma WIFEXITED_sw: "WIFEXITED (status_word ev sig low) \<longleftrightarrow> low mod 128 = 0"
  by (simp only: WIFEXITED_def WTERMSIG_sw)

lemma WIFSTOPPED_sw:
  "0 \<le> sig \<Longrightarrow> sig < 256 \<Longrightarrow> 0 \<le> low \<Longrightarrow> low < 256 \<Longrightarrow>
   WIFSTOPPED L (status_word ev sig low) \<longleftrightarrow> low = 127 \<and> (L = Musl \<longrightarrow> 0 < sig)"
  by (cases L) (simp_all add: WIFSTOPPED_Glibc_iff WIFSTOPPED_Musl_iff sw_mod256 sw_sig)

lemma WIFSIGNALED_sw:
  assumes "0 \<le> sig" "sig < 256" "0 \<le> low" "low < 256"
  shows "WIFSIGNALED L (status_word ev sig low) \<longleftrightarrow>
     (case L of Glibc \<Rightarrow> 1 \<le> low mod 128 \<and> low mod 128 \<le> 126
      | Musl \<Rightarrow> sig = 0 \<and> 1 \<le> low)"
proof (cases L)
  case Glibc
  then show ?thesis by (simp add: WIFSIGNALED_Glibc_iff sw_mod128)
next
  case Musl
  have "sig * 256 + low \<le> 255 \<longleftrightarrow> sig = 0"
    using assms by auto
  moreover have "sig = 0 \<Longrightarrow> 1 \<le> sig * 256 + low \<longleftrightarrow> 1 \<le> low"
    by simp
  ultimately show ?thesis
    using Musl assms by (auto simp add: WIFSIGNALED_Musl_iff sw_mod65536)
qed

lemma drop_bit_16_sw:
  "0 \<le> sig \<Longrightarrow> sig < 256 \<Longrightarrow> 0 \<le> low \<Longrightarrow> low < 256 \<Longrightarrow>
   drop_bit 16 (status_word ev sig low) = ev"
  by (simp add: drop_bit_eq_div sw_div65536)

lemma drop_bit_8_sw:
  "0 \<le> low \<Longrightarrow> low < 256 \<Longrightarrow> drop_bit 8 (status_word ev sig low) = ev * 256 + sig"
  by (simp add: drop_bit_eq_div sw_div256)

subsection \<open>The handler at each event of the kernel\<close>

lemma event_codes [simp]:
  "SIGTRAP OR push_bit 8 PTRACE_EVENT_FORK = 261"
  "SIGTRAP OR push_bit 8 PTRACE_EVENT_VFORK = 517"
  "SIGTRAP OR push_bit 8 PTRACE_EVENT_CLONE = 773"
  by (simp_all add: SIGTRAP_def PTRACE_EVENT_FORK_def PTRACE_EVENT_VFORK_def
      PTRACE_EVENT_CLONE_def)

lemma event_number_range: "1 \<le> event_number k \<and> event_number k \<le> 3"
  by (cases k) (simp_all add: PTRACE_EVENT_FORK_def PTRACE_EVENT_VFORK_def PTRACE_EVENT_CLONE_def)

lemma and_0x80_small: "0 \<le> x \<Longrightarrow> x < 128 \<Longrightarrow> (x::int) AND 0x80 = 0"
  using and_0x80_iff [of x] by simp

lemma tracer_cb_boundary:
  assumes "tracee_at st c = Some t"
  shows "tracer_cb L ns dbg env c (wait_status SyscallBoundary) st =
    (case (if in_syscall t = 0 then count_syscall ns dbg env t st else Inr ([], st)) of
       Inl e \<Rightarrow> Inl e
     | Inr (calls, st') \<Rightarrow>
         Inr (calls @ [Ptrace_syscall (pid t) 0, Uloop_process_add c],
              st'\<lparr>tracees :=
                    (tracees st')
                      [c := Some (t\<lparr>in_syscall := (if in_syscall t = 0 then 1 else 0)\<rparr>)]\<rparr>))"
proof -
  have a: "WIFSTOPPED L (status_word 0 133 127)"
    by (simp add: WIFSTOPPED_sw)
  have b: "WSTOPSIG (status_word 0 133 127) AND 0x80 \<noteq> 0"
    by (simp add: WSTOPSIG_sw)
  show ?thesis
    using assms a b
    by (simp add: tracer_cb_def handle_stop_def SIGTRAP_def split: sum.splits)
qed

lemma tracer_cb_new_child:
  assumes "tracee_at st c = Some t"
  shows "tracer_cb L ns dbg env c (wait_status (NewChildEvent k)) st =
    (let child_pid = (case geteventmsg env of Some msg \<Rightarrow> msg | None \<Rightarrow> 0)
     in Inr ([Ptrace_geteventmsg (pid t), Ptrace_syscall child_pid 0,
              Uloop_process_add (length (tracees st))] @
             (if dbg then [Fprintf_new_child child_pid] else []) @
             [Ptrace_syscall (pid t) 0, Uloop_process_add c],
             st\<lparr>tracees := tracees st @
                    [Some \<lparr>pid = child_pid, cb = Some Tracer_cb, in_syscall = 0\<rparr>]\<rparr>))"
proof -
  have a: "WIFSTOPPED L (status_word (event_number k) 5 127)"
    by (simp add: WIFSTOPPED_sw)
  have b: "WSTOPSIG (status_word (event_number k) 5 127) AND 0x80 = 0"
    by (simp add: WSTOPSIG_sw)
  have c: "drop_bit 8 (status_word (event_number k) 5 127) = event_number k * 256 + 5"
    by (simp add: drop_bit_8_sw)
  have d: "event_number k * 256 + 5 = 261 \<or> event_number k * 256 + 5 = 517 \<or>
           event_number k * 256 + 5 = 773"
    by (cases k) (simp_all add: PTRACE_EVENT_FORK_def PTRACE_EVENT_VFORK_def
        PTRACE_EVENT_CLONE_def)
  show ?thesis
    using assms a b d
    by (simp add: tracer_cb_def handle_stop_def SIGTRAP_def PTRACE_EVENT_FORK_def
        PTRACE_EVENT_VFORK_def PTRACE_EVENT_CLONE_def c Let_def)
qed

lemma tracer_cb_group_stop:
  assumes "tracee_at st c = Some t" and "0 < sig" "sig < 128"
  shows "tracer_cb L ns dbg env c (wait_status (GenericGroupStop sig)) st =
    Inr ([Ptrace_syscall (pid t) 0, Uloop_process_add c], st)"
proof -
  have a: "drop_bit 16 (status_word 128 sig 127) = 128"
    using assms by (simp add: drop_bit_16_sw)
  have b: "WSTOPSIG (status_word 128 sig 127) AND 0x80 = 0"
    using assms by (simp add: WSTOPSIG_sw and_0x80_small)
  have c: "drop_bit 8 (status_word 128 sig 127) = 32768 + sig"
    by (simp add: drop_bit_8_sw)
  show ?thesis
    using assms a b
    by (simp add: tracer_cb_def handle_stop_def PTRACE_EVENT_STOP_def c)
qed

lemma tracer_cb_signal_stop:
  assumes "tracee_at st c = Some t" and "0 < sig" "sig < 128"
  shows "tracer_cb L ns dbg env c (wait_status (SignalDeliveryStop sig)) st =
    Inr ((if dbg then [Fprintf_inject sig (pid t)] else []) @
         [Ptrace_syscall (pid t) sig, Uloop_process_add c], st)"
proof -
  have a: "WIFSTOPPED L (status_word 0 sig 127)"
    using assms by (simp add: WIFSTOPPED_sw)
  have b: "WSTOPSIG (status_word 0 sig 127) = sig"
    using assms by (simp add: WSTOPSIG_sw)
  have b': "sig AND 0x80 = 0"
    using assms by (simp add: and_0x80_small)
  have c: "drop_bit 8 (status_word 0 sig 127) = sig"
    by (simp add: drop_bit_8_sw)
  have d: "drop_bit 16 (status_word 0 sig 127) = 0"
    using assms by (simp add: drop_bit_16_sw)
  show ?thesis
    using assms a b'
    by (simp add: tracer_cb_def handle_stop_def PTRACE_EVENT_STOP_def b c d)
qed

lemma tracer_cb_terminal:
  assumes "tracee_at st c = Some t" and "valid_event e" "decoded_terminal L e"
  shows "tracer_cb L ns dbg env c (wait_status e) st =
    (if c = tracer then Inr ([Uloop_end], st\<lparr>uloop_cancelled := True\<rparr>)
     else Inr ((if dbg then [Fprintf_child_exited (pid t)] else []) @ [Free c],
               st\<lparr>tracees := (tracees st)[c := None]\<rparr>))"
proof (cases e)
  case (Exited code)
  then have r: "0 \<le> code" "code < 256" using assms by simp_all
  have a: "\<not> WIFSTOPPED L (status_word 0 code 0)"
    using r by (simp add: WIFSTOPPED_sw)
  have b: "drop_bit 16 (status_word 0 code 0) = 0"
    using r by (simp add: drop_bit_16_sw)
  have c: "WIFEXITED (status_word 0 code 0)"
    by (simp add: WIFEXITED_sw)
  show ?thesis
    using assms a c by (simp add: tracer_cb_def Exited b)
next
  case (Signaled sig core)
  define low where "low = sig + (if core then 128 else 0)"
  have s: "0 < sig" "sig < 128" and m: "L = Musl \<or> sig < 127"
    using assms Signaled by simp_all
  then have r: "0 \<le> low" "low < 256" "low mod 128 = sig"
    by (simp_all add: low_def)
  have a: "\<not> WIFSTOPPED L (status_word 0 0 low)"
    using r s m by (auto simp add: WIFSTOPPED_sw low_def split: if_splits)
  have b: "drop_bit 16 (status_word 0 0 low) = 0"
    using r by (simp add: drop_bit_16_sw)
  have c: "WIFSIGNALED L (status_word 0 0 low)"
  proof (cases L)
    case Glibc
    with m have "sig < 127" by simp
    with Glibc r s show ?thesis by (simp add: WIFSIGNALED_sw)
  next
    case Musl
    with r s show ?thesis by (simp add: WIFSIGNALED_sw) (simp add: low_def)
  qed
  have d: "WTERMSIG (status_word 0 0 low) \<noteq> 0"
    using r s by (simp add: WTERMSIG_sw)
  show ?thesis
    using assms a c d by (simp add: tracer_cb_def Signaled b flip: low_def)
qed (use assms in simp_all)

text \<open>The death by signal 127 under the macros of glibc: the tracee is continued.\<close>

lemma tracer_cb_glibc_127:
  assumes "tracee_at st c = Some t"
  shows "tracer_cb Glibc ns dbg env c (wait_status (Signaled 127 core)) st =
    Inr ((if dbg \<and> \<not> core then [Fprintf_inject 0 (pid t)] else []) @
         [Ptrace_syscall (pid t) 0, Uloop_process_add c], st)"
proof (cases core)
  case False
  have a: "WIFSTOPPED Glibc (status_word 0 0 127)"
    by (simp add: WIFSTOPPED_sw)
  have b: "WSTOPSIG (status_word 0 0 127) = 0"
    by (simp add: WSTOPSIG_sw)
  have c: "drop_bit 8 (status_word 0 0 127) = 0"
    by (simp add: drop_bit_8_sw)
  have d: "drop_bit 16 (status_word 0 0 127) = 0"
    by (simp add: drop_bit_16_sw)
  show ?thesis
    using assms a False
    by (simp add: tracer_cb_def handle_stop_def PTRACE_EVENT_STOP_def b c d)
next
  case True
  have a: "\<not> WIFSTOPPED Glibc (status_word 0 0 255)"
    by (simp add: WIFSTOPPED_sw)
  have b: "drop_bit 16 (status_word 0 0 255) = 0"
    by (simp add: drop_bit_16_sw)
  have c: "\<not> WIFEXITED (status_word 0 0 255)"
    by (simp add: WIFEXITED_sw)
  have d: "\<not> WIFSIGNALED Glibc (status_word 0 0 255)"
    by (simp add: WIFSIGNALED_sw)
  show ?thesis
    using assms a c d True by (simp add: tracer_cb_def b)
qed

lemma undecoded_terminal:
  "valid_event e \<Longrightarrow> terminal e \<Longrightarrow> \<not> decoded_terminal L e \<Longrightarrow>
   L = Glibc \<and> (\<exists>core. e = Signaled 127 core)"
  by (cases e; cases L) auto

declare wait_status.simps [simp del]

subsection \<open>What one call of the handler does to the tracees\<close>

lemma tracee_at_update:
  "c < length (tracees st) \<Longrightarrow>
   tracee_at (st\<lparr>tracees := (tracees st)[c := x]\<rparr>) h = (if h = c then x else tracee_at st h)"
  by (simp add: tracee_at_def)

lemma tracee_at_append:
  "tracee_at (st\<lparr>tracees := tracees st @ [x]\<rparr>) h =
     (if h = length (tracees st) then x else tracee_at st h)"
  by (auto simp: tracee_at_def nth_append)

lemma tracee_at_live: "tracee_at st c = Some t \<Longrightarrow> c < length (tracees st)"
  by (simp add: tracee_at_def split: if_splits)

lemma tracer_cb_invalid: "tracee_at st c = None \<Longrightarrow> tracer_cb L ns dbg env c ret st = Inl (Invalid_tracee c)"
  by (simp add: tracer_cb_def)

lemma count_syscall_frame:
  "count_syscall ns dbg env t st = Inr (calls, st') \<Longrightarrow>
   tracees st' = tracees st \<and> uloop_cancelled st' = uloop_cancelled st"
  by (auto simp: count_syscall_def Let_def split: if_splits)

lemma tracer_cb_slots:
  assumes res: "tracer_cb L ns dbg env c (wait_status e) st = Inr (calls, st')"
    and e: "valid_event e"
  shows "\<exists>t. tracee_at st c = Some t \<and>
           tracee_at st' c =
             (if e = SyscallBoundary then Some (toggled t)
              else if decoded_terminal L e \<and> c \<noteq> tracer then None else Some t)"
    and "\<And>h. h \<noteq> c \<Longrightarrow> h < length (tracees st) \<Longrightarrow> tracee_at st' h = tracee_at st h"
    and "length (tracees st) \<le> length (tracees st')"
    and "uloop_cancelled st' \<longleftrightarrow> uloop_cancelled st \<or> (c = tracer \<and> decoded_terminal L e)"
proof -
  obtain t where t: "tracee_at st c = Some t"
    using res by (cases "tracee_at st c") (simp_all add: tracer_cb_invalid)
  note c = tracee_at_live [OF t]
  have "(tracee_at st' c =
             (if e = SyscallBoundary then Some (toggled t)
              else if decoded_terminal L e \<and> c \<noteq> tracer then None else Some t)) \<and>
        (\<forall>h. h \<noteq> c \<longrightarrow> h < length (tracees st) \<longrightarrow> tracee_at st' h = tracee_at st h) \<and>
        length (tracees st) \<le> length (tracees st') \<and>
        (uloop_cancelled st' \<longleftrightarrow> uloop_cancelled st \<or> (c = tracer \<and> decoded_terminal L e))"
  proof (cases e)
    case SyscallBoundary
    show ?thesis
    proof (cases "in_syscall t = 0")
      case True
      then obtain calls1 st1 where cs: "count_syscall ns dbg env t st = Inr (calls1, st1)"
        and st': "st' = st1\<lparr>tracees := (tracees st1)[c := Some (toggled t)]\<rparr>"
        using res unfolding SyscallBoundary tracer_cb_boundary [OF t]
        by (auto simp: toggled_def split: sum.splits)
      from count_syscall_frame [OF cs] c show ?thesis
        by (simp add: st' SyscallBoundary tracee_at_def)
    next
      case False
      then have "st' = st\<lparr>tracees := (tracees st)[c := Some (toggled t)]\<rparr>"
        using res unfolding SyscallBoundary tracer_cb_boundary [OF t]
        by (auto simp: toggled_def)
      with c show ?thesis
        by (simp add: SyscallBoundary tracee_at_def)
    qed
  next
    case (NewChildEvent k)
    from res have "st' = st\<lparr>tracees := tracees st @
        [Some \<lparr>pid = (case geteventmsg env of Some msg \<Rightarrow> msg | None \<Rightarrow> 0),
               cb = Some Tracer_cb, in_syscall = 0\<rparr>]\<rparr>"
      unfolding NewChildEvent tracer_cb_new_child [OF t] by (simp add: Let_def)
    with c t show ?thesis
      by (auto simp add: NewChildEvent tracee_at_def nth_append)
  next
    case (GenericGroupStop sig)
    then have "0 < sig" "sig < 128" using e by simp_all
    from res have "st' = st"
      unfolding GenericGroupStop tracer_cb_group_stop [OF t \<open>0 < sig\<close> \<open>sig < 128\<close>] by simp
    with t show ?thesis
      by (simp add: GenericGroupStop)
  next
    case (SignalDeliveryStop sig)
    then have "0 < sig" "sig < 128" using e by simp_all
    from res have "st' = st"
      unfolding SignalDeliveryStop tracer_cb_signal_stop [OF t \<open>0 < sig\<close> \<open>sig < 128\<close>] by simp
    with t show ?thesis
      by (simp add: SignalDeliveryStop)
  next
    case (Exited code)
    then have te: "decoded_terminal L e" by simp
    from res c t show ?thesis
      unfolding tracer_cb_terminal [OF t e te]
      by (auto simp add: Exited tracee_at_def split: if_splits)
  next
    case (Signaled sig core)
    show ?thesis
    proof (cases "decoded_terminal L e")
      case True
      from res c t show ?thesis
        unfolding tracer_cb_terminal [OF t e True]
        using True by (auto simp add: Signaled tracee_at_def split: if_splits)
    next
      case False
      with e Signaled have g: "L = Glibc" "sig = 127"
        using undecoded_terminal [of e L] by auto
      from res have "st' = st"
        unfolding Signaled g tracer_cb_glibc_127 [OF t] by simp
      with t False show ?thesis
        by (simp add: Signaled)
    qed
  qed
  with t show "\<exists>t. tracee_at st c = Some t \<and>
           tracee_at st' c =
             (if e = SyscallBoundary then Some (toggled t)
              else if decoded_terminal L e \<and> c \<noteq> tracer then None else Some t)"
    and "\<And>h. h \<noteq> c \<Longrightarrow> h < length (tracees st) \<Longrightarrow> tracee_at st' h = tracee_at st h"
    and "length (tracees st) \<le> length (tracees st')"
    and "uloop_cancelled st' \<longleftrightarrow> uloop_cancelled st \<or> (c = tracer \<and> decoded_terminal L e)"
    by simp_all
qed

subsection \<open>The run of the event loop\<close>

lemma uloop_run_cancelled: "uloop_cancelled st \<Longrightarrow> uloop_run L ns dbg ds st = Inr ([], st)"
  by (cases ds) simp_all

lemma uloop_run_step:
  assumes "uloop_run L ns dbg (deliver (c, e, env) # ds) st = Inr (calls, st')"
    and "\<not> uloop_cancelled st"
  obtains calls1 st1 calls2 where
    "tracer_cb L ns dbg env c (wait_status e) st = Inr (calls1, st1)"
    "uloop_run L ns dbg ds st1 = Inr (calls2, st')"
    "calls = calls1 @ calls2"
  using assms by (auto simp: deliver_def split: sum.splits)

lemma run_freed_stays:
  assumes "uloop_run L ns dbg (map deliver es) st = Inr (calls, st')"
    and "\<forall>(h, e, env) \<in> set es. valid_event e"
    and "c < length (tracees st)" "tracee_at st c = None"
  shows "tracee_at st' c = None"
  using assms
proof (induction es arbitrary: st calls)
  case Nil
  then show ?case by simp
next
  case (Cons x es)
  obtain h e env where x: "x = (h, e, env)" by (cases x)
  show ?case
  proof (cases "uloop_cancelled st")
    case True
    with Cons.prems show ?thesis by (simp add: uloop_run_cancelled)
  next
    case False
    from Cons.prems(1) obtain calls1 st1 calls2 where
      cb: "tracer_cb L ns dbg env h (wait_status e) st = Inr (calls1, st1)"
      and rest: "uloop_run L ns dbg (map deliver es) st1 = Inr (calls2, st')"
      unfolding x list.map by (rule uloop_run_step [OF _ False])
    have e: "valid_event e" using Cons.prems(2) x by simp
    have "h \<noteq> c"
      using cb Cons.prems(4) by (auto simp: tracer_cb_invalid)
    then have "tracee_at st1 c = None" "c < length (tracees st1)"
      using tracer_cb_slots(2,3) [OF cb e] Cons.prems(3,4) by auto
    with Cons.IH [OF rest] Cons.prems(2) show ?thesis by simp
  qed
qed

lemma run_parity:
  assumes "uloop_run L ns dbg (map deliver es) st = Inr (calls, st')"
    and "\<forall>(h, e, env) \<in> set es. valid_event e"
    and "\<not> uloop_cancelled st'"
    and "tracee_at st c = Some t" "tracee_at st' c = Some t'"
  shows "(in_syscall t' = 0) = (even (boundaries c es) = (in_syscall t = 0))"
  using assms
proof (induction es arbitrary: st calls t)
  case Nil
  then show ?case by (simp add: boundaries_def)
next
  case (Cons x es)
  obtain h e env where x: "x = (h, e, env)" by (cases x)
  have nc: "\<not> uloop_cancelled st"
    using Cons.prems(1,3) by (auto simp: uloop_run_cancelled)
  from Cons.prems(1) obtain calls1 st1 calls2 where
    cb: "tracer_cb L ns dbg env h (wait_status e) st = Inr (calls1, st1)"
    and rest: "uloop_run L ns dbg (map deliver es) st1 = Inr (calls2, st')"
    unfolding x list.map by (rule uloop_run_step [OF _ nc])
  have e: "valid_event e" and es: "\<forall>(h, e, env) \<in> set es. valid_event e"
    using Cons.prems(2) x by simp_all
  have c: "c < length (tracees st)" "c < length (tracees st1)"
    using tracee_at_live [OF Cons.prems(4)] tracer_cb_slots(3) [OF cb e] by simp_all
  have alive: "tracee_at st1 c \<noteq> None"
    using run_freed_stays [OF rest es c(2)] Cons.prems(5) by auto
  then obtain t1 where t1: "tracee_at st1 c = Some t1" by auto
  note IH = Cons.IH [OF rest es Cons.prems(3) t1 Cons.prems(5)]
  show ?case
  proof (cases "h = c \<and> e = SyscallBoundary")
    case True
    then have "t1 = toggled t"
      using tracer_cb_slots(1) [OF cb e] t1 Cons.prems(4) by simp
    moreover have "boundaries c (x # es) = Suc (boundaries c es)"
      using True by (simp add: boundaries_def x)
    ultimately show ?thesis
      using IH by (auto simp: toggled_def)
  next
    case False
    have "t1 = t"
    proof (cases "h = c")
      case True
      with False tracer_cb_slots(1) [OF cb e] t1 Cons.prems(4) show ?thesis
        by (auto split: if_splits)
    next
      case False
      with tracer_cb_slots(2) [OF cb e, of c] c t1 Cons.prems(4) show ?thesis by simp
    qed
    moreover have "boundaries c (x # es) = boundaries c es"
      using False by (auto simp add: boundaries_def x)
    ultimately show ?thesis
      using IH by simp
  qed
qed

lemma run_cancelled_iff:
  assumes "uloop_run L ns dbg (map deliver es) st = Inr (calls, st')"
    and "\<forall>(h, e, env) \<in> set es. valid_event e"
    and "\<not> uloop_cancelled st"
  shows "uloop_cancelled st' \<longleftrightarrow> (\<exists>(h, e, env) \<in> set es. h = tracer \<and> decoded_terminal L e)"
  using assms
proof (induction es arbitrary: st calls)
  case Nil
  then show ?case by simp
next
  case (Cons x es)
  obtain h e env where x: "x = (h, e, env)" by (cases x)
  from Cons.prems(1) obtain calls1 st1 calls2 where
    cb: "tracer_cb L ns dbg env h (wait_status e) st = Inr (calls1, st1)"
    and rest: "uloop_run L ns dbg (map deliver es) st1 = Inr (calls2, st')"
    unfolding x list.map by (rule uloop_run_step [OF _ Cons.prems(3)])
  have e: "valid_event e" and es: "\<forall>(h, e, env) \<in> set es. valid_event e"
    using Cons.prems(2) x by simp_all
  have st1: "uloop_cancelled st1 \<longleftrightarrow> h = tracer \<and> decoded_terminal L e"
    using tracer_cb_slots(4) [OF cb e] Cons.prems(3) by simp
  show ?case
  proof (cases "uloop_cancelled st1")
    case True
    then have "st' = st1" using rest by (simp add: uloop_run_cancelled)
    with True st1 show ?thesis by (simp add: x)
  next
    case False
    with Cons.IH [OF rest es] st1 show ?thesis by (auto simp add: x)
  qed
qed


subsection \<open>The calls of one handler invocation\<close>

lemma continuations_append [simp]:
  "continuations (xs @ ys) = continuations xs @ continuations ys"
  by (induction xs rule: continuations.induct) simp_all

lemma registrations_append [simp]:
  "registrations (xs @ ys) = registrations xs @ registrations ys"
  by (induction xs rule: registrations.induct) simp_all

lemma count_syscall_calls:
  "count_syscall ns dbg env t st = Inr (calls, st') \<Longrightarrow>
   continuations calls = [] \<and> registrations calls = [] \<and> Uloop_end \<notin> set calls"
  by (auto simp: count_syscall_def Let_def split: if_splits)

lemma count_syscall_ok:
  assumes "length (syscall_count st) = length ns" and "0 \<le> peekuser env"
  shows "\<exists>calls st'. count_syscall ns dbg env t st = Inr (calls, st')"
  using assms by (auto simp: count_syscall_def Let_def)

lemma tracer_cb_boundary_ok:
  assumes t: "tracee_at st c = Some t"
    and wf: "length (syscall_count st) = length ns"
    and ok: "in_syscall t = 0 \<longrightarrow> 0 \<le> peekuser env"
  shows "\<exists>calls st'. tracer_cb L ns dbg env c (wait_status SyscallBoundary) st =
            Inr (calls @ [Ptrace_syscall (pid t) 0, Uloop_process_add c], st') \<and>
          continuations calls = [] \<and> registrations calls = [] \<and> Uloop_end \<notin> set calls"
proof (cases "in_syscall t = 0")
  case True
  with ok have "0 \<le> peekuser env" by simp
  from count_syscall_ok [OF wf this] obtain calls st1
    where cs: "count_syscall ns dbg env t st = Inr (calls, st1)" by blast
  show ?thesis
    using True count_syscall_calls [OF cs]
    by (simp add: tracer_cb_boundary [OF t] cs)
next
  case False
  then show ?thesis
    by (simp add: tracer_cb_boundary [OF t])
qed


lemma tracer_cb_exit_boundary:
  assumes t: "tracee_at st c = Some t" and f: "in_syscall t \<noteq> 0"
  shows "tracer_cb L ns dbg env c (wait_status SyscallBoundary) st =
     Inr ([Ptrace_syscall (pid t) 0, Uloop_process_add c],
          st\<lparr>tracees := (tracees st)[c := Some (t\<lparr>in_syscall := 0\<rparr>)]\<rparr>)"
  using f by (simp add: tracer_cb_boundary [OF t])

lemma tracer_cb_entry_boundary:
  assumes t: "tracee_at st c = Some t" and f: "in_syscall t = 0"
    and wf: "length (syscall_count st) = length ns"
    and peek: "0 \<le> peekuser env"
  shows "tracer_cb L ns dbg env c (wait_status SyscallBoundary) st =
     Inr (Ptrace_peekuser (pid t) #
            (if dbg then
               [if peekuser env < int (length ns) then Fprintf_syscall (ns ! nat (peekuser env))
                else Fprintf_syscal (peekuser env)]
             else []) @
            [Ptrace_syscall (pid t) 0, Uloop_process_add c],
          st\<lparr>syscall_count :=
                (if peekuser env < int (length ns) then
                   (syscall_count st)
                     [nat (peekuser env) := int32 (syscall_count st ! nat (peekuser env) + 1)]
                 else syscall_count st),
             tracees := (tracees st)[c := Some (t\<lparr>in_syscall := 1\<rparr>)]\<rparr>)"
  using f wf peek by (auto simp add: tracer_cb_boundary [OF t] count_syscall_def Let_def)

subsection \<open>A well-formed run returns\<close>


lemma live_slots_update:
  "live_slots (st\<lparr>tracees := (tracees st)[c := x]\<rparr>) = (live_slots st)[c := x \<noteq> None]"
  by (simp add: live_slots_def map_update)




lemma well_formed_prefix:
  "well_formed L live (es1 @ es2) \<Longrightarrow> well_formed L live es1"
  by (induction es1 arbitrary: live) auto

subsection \<open>The state that main sets up\<close>

lemma init_state_root:
  "tracee_at (init_state ns child) tracer =
     Some \<lparr>pid = child, cb = Some Tracer_cb, in_syscall = 0\<rparr>"
  by (simp add: tracee_at_def init_state_def tracer_def)

lemma init_state_wf: "length (syscall_count (init_state ns child)) = length ns"
  by (simp add: init_state_def)

section \<open>Claims about the tracer\<close>

text \<open>
  Claim C3 fails on the code. At the entry of a system call the handler tests
  \<^verbatim>\<open>syscall < syscall_max\<close> and nothing else. When \<^verbatim>\<open>PTRACE_PEEKUSER\<close> fails, \<^verbatim>\<open>syscall\<close>
  is \<open>-1\<close>, the test passes, and \<^verbatim>\<open>syscall_count[-1]++\<close> is reached: the table is indexed
  below its first slot. Here this is evaluated for the first stop of the root tracee, with
  any table, any C library and any pid.
\<close>

theorem C3_failed_read_indexes_below_table:
  "tracer_cb L syscall_names debug \<lparr>peekuser = - 1, geteventmsg = None\<rparr> tracer
     (wait_status SyscallBoundary) (init_state syscall_names child) =
   Inl (Out_of_bounds (- 1))"
proof -
  have "tracee_at (init_state syscall_names child) tracer =
          Some \<lparr>pid = child, cb = Some Tracer_cb, in_syscall = 0\<rparr>"
    by (simp add: tracee_at_def init_state_def tracer_def)
  then show ?thesis
    by (simp add: tracer_cb_boundary count_syscall_def)
qed

text \<open>
  Claim C5. For a live tracee and a table and counter array of equal length:
  a syscall-boundary event met with the flag set clears the flag and changes nothing
  else, no counter in particular; met with the flag clear, and a register read that is
  not negative, it sets the flag and adds one to the counter of the number read when the
  number is below the table size, and to no counter otherwise. Over a run of the loop
  that has not ended, the flag of a tracee that is still live is clear exactly when the
  number of its boundary events is even (for a flag that was clear at the start, as
  \<^verbatim>\<open>calloc\<close> and the static \<^verbatim>\<open>tracer\<close> have it). An entry followed by the exit
  leaves the state as it was but for the counter of the number read, which is one higher
  (the counter being below \<^verbatim>\<open>INT_MAX\<close>).
\<close>

theorem C5_boundary_toggles_and_counts_on_entry:
  assumes live: "tracee_at st c = Some t"
    and wf: "length (syscall_count st) = length syscall_names"
  shows
   "(in_syscall t \<noteq> 0 \<longrightarrow>
       tracer_cb L syscall_names debug env c (wait_status SyscallBoundary) st =
         Inr ([Ptrace_syscall (pid t) 0, Uloop_process_add c],
              st\<lparr>tracees := (tracees st)[c := Some (t\<lparr>in_syscall := 0\<rparr>)]\<rparr>)) \<and>
    (in_syscall t = 0 \<and> 0 \<le> peekuser env \<longrightarrow>
       (\<exists>calls. tracer_cb L syscall_names debug env c (wait_status SyscallBoundary) st =
          Inr (calls,
               st\<lparr>syscall_count :=
                     (if peekuser env < int (length syscall_names) then
                        (syscall_count st)
                          [nat (peekuser env) :=
                             int32 (syscall_count st ! nat (peekuser env) + 1)]
                      else syscall_count st),
                  tracees := (tracees st)[c := Some (t\<lparr>in_syscall := 1\<rparr>)]\<rparr>))) \<and>
    (\<forall>es calls st' t'.
       uloop_run L syscall_names debug (map deliver es) st = Inr (calls, st') \<and>
       (\<forall>(h, e, env) \<in> set es. valid_event e) \<and> \<not> uloop_cancelled st' \<and>
       tracee_at st' c = Some t' \<longrightarrow>
       (in_syscall t' = 0) = (even (boundaries c es) = (in_syscall t = 0))) \<and>
    (in_syscall t = 0 \<and> \<not> uloop_cancelled st \<and>
     0 \<le> peekuser env \<and> peekuser env < int (length syscall_names) \<and>
     0 \<le> syscall_count st ! nat (peekuser env) \<and>
     syscall_count st ! nat (peekuser env) < INT_MAX \<longrightarrow>
       (\<exists>calls. uloop_run L syscall_names debug
                  (map deliver [(c, SyscallBoundary, env), (c, SyscallBoundary, env')]) st =
          Inr (calls,
               st\<lparr>syscall_count :=
                     (syscall_count st)
                       [nat (peekuser env) := syscall_count st ! nat (peekuser env) + 1]\<rparr>)))"
proof (intro conjI impI allI)
  assume "in_syscall t \<noteq> 0"
  then show "tracer_cb L syscall_names debug env c (wait_status SyscallBoundary) st =
         Inr ([Ptrace_syscall (pid t) 0, Uloop_process_add c],
              st\<lparr>tracees := (tracees st)[c := Some (t\<lparr>in_syscall := 0\<rparr>)]\<rparr>)"
    by (rule tracer_cb_exit_boundary [OF live])
next
  assume "in_syscall t = 0 \<and> 0 \<le> peekuser env"
  then show "\<exists>calls. tracer_cb L syscall_names debug env c (wait_status SyscallBoundary) st =
          Inr (calls,
               st\<lparr>syscall_count :=
                     (if peekuser env < int (length syscall_names) then
                        (syscall_count st)
                          [nat (peekuser env) :=
                             int32 (syscall_count st ! nat (peekuser env) + 1)]
                      else syscall_count st),
                  tracees := (tracees st)[c := Some (t\<lparr>in_syscall := 1\<rparr>)]\<rparr>)"
    using tracer_cb_entry_boundary [OF live _ wf, of env L debug] by simp
next
  fix es calls st' t'
  assume "uloop_run L syscall_names debug (map deliver es) st = Inr (calls, st') \<and>
       (\<forall>(h, e, env) \<in> set es. valid_event e) \<and> \<not> uloop_cancelled st' \<and>
       tracee_at st' c = Some t'"
  then have r: "uloop_run L syscall_names debug (map deliver es) st = Inr (calls, st')"
    and v: "\<forall>(h, e, env) \<in> set es. valid_event e" and nc: "\<not> uloop_cancelled st'"
    and t': "tracee_at st' c = Some t'"
    by simp_all
  show "(in_syscall t' = 0) = (even (boundaries c es) = (in_syscall t = 0))"
    by (rule run_parity [OF r v nc live t'])
next
  assume a: "in_syscall t = 0 \<and> \<not> uloop_cancelled st \<and>
     0 \<le> peekuser env \<and> peekuser env < int (length syscall_names) \<and>
     0 \<le> syscall_count st ! nat (peekuser env) \<and>
     syscall_count st ! nat (peekuser env) < INT_MAX"
  let ?n = "nat (peekuser env)"
  let ?st1 = "st\<lparr>syscall_count := (syscall_count st)[?n := syscall_count st ! ?n + 1],
                 tracees := (tracees st)[c := Some (t\<lparr>in_syscall := 1\<rparr>)]\<rparr>"
  have i32: "int32 (syscall_count st ! ?n + 1) = syscall_count st ! ?n + 1"
    using a by (simp add: int32_id INT_MAX_def)
  have c: "c < length (tracees st)" "tracees st ! c = Some t"
    using live by (simp_all add: tracee_at_def split: if_splits)
  have first: "tracer_cb L syscall_names debug env c (wait_status SyscallBoundary) st =
      Inr (Ptrace_peekuser (pid t) #
             (if debug then [Fprintf_syscall (syscall_names ! ?n)] else []) @
             [Ptrace_syscall (pid t) 0, Uloop_process_add c], ?st1)"
    using a tracer_cb_entry_boundary [OF live _ wf, of env L debug] by (simp add: i32)
  have t1: "tracee_at ?st1 c = Some (t\<lparr>in_syscall := 1\<rparr>)"
    using c by (simp add: tracee_at_def)
  have undo: "(t\<lparr>in_syscall := 1\<rparr>)\<lparr>in_syscall := 0\<rparr> = t"
    using a by simp
  have second: "tracer_cb L syscall_names debug env' c (wait_status SyscallBoundary) ?st1 =
      Inr ([Ptrace_syscall (pid t) 0, Uloop_process_add c],
           st\<lparr>syscall_count := (syscall_count st)[?n := syscall_count st ! ?n + 1]\<rparr>)"
    using tracer_cb_exit_boundary [OF t1, of L syscall_names debug env'] c
    by (simp add: undo list_update_same_conv)
  show "\<exists>calls. uloop_run L syscall_names debug
                  (map deliver [(c, SyscallBoundary, env), (c, SyscallBoundary, env')]) st =
          Inr (calls,
               st\<lparr>syscall_count :=
                     (syscall_count st)[?n := syscall_count st ! ?n + 1]\<rparr>)"
    using a by (simp add: deliver_def first second)
qed

theorem C5_boundary_toggles_and_counts_on_entry_witness:
  "tracee_at (init_state [Some ''read'', Some ''write''] 100) tracer =
     Some \<lparr>pid = 100, cb = Some Tracer_cb, in_syscall = 0\<rparr> \<and>
   length (syscall_count (init_state [Some ''read'', Some ''write''] 100)) =
     length [Some ''read'', Some ''write''] \<and>
   (\<exists>calls.
      uloop_run Musl [Some ''read'', Some ''write''] False
        (map deliver
          [(tracer, SyscallBoundary, \<lparr>peekuser = 1, geteventmsg = None\<rparr>),
           (tracer, SyscallBoundary, \<lparr>peekuser = 1, geteventmsg = None\<rparr>)])
        (init_state [Some ''read'', Some ''write''] 100) =
      Inr (calls, (init_state [Some ''read'', Some ''write''] 100)\<lparr>syscall_count := [0, 1]\<rparr>))"
proof -
  let ?ns = "[Some ''read'', Some ''write'']"
  let ?t = "\<lparr>pid = 100, cb = Some Tracer_cb, in_syscall = 0\<rparr>"
  let ?env = "\<lparr>peekuser = 1, geteventmsg = None\<rparr>"
  have h1: "tracee_at (init_state ?ns 100) tracer = Some ?t"
    by (rule init_state_root)
  have h2: "length (syscall_count (init_state ?ns 100)) = length ?ns"
    by (rule init_state_wf)
  have cnt: "syscall_count (init_state ?ns 100) = [0, 0]"
    and nc: "\<not> uloop_cancelled (init_state ?ns 100)"
    by (simp_all add: init_state_def)
  from C5_boundary_toggles_and_counts_on_entry [OF h1 h2, of Musl False ?env ?env]
  have "\<exists>calls.
      uloop_run Musl ?ns False
        (map deliver [(tracer, SyscallBoundary, ?env), (tracer, SyscallBoundary, ?env)])
        (init_state ?ns 100) =
      Inr (calls, (init_state ?ns 100)\<lparr>syscall_count := [0, 1]\<rparr>)"
    by (simp add: cnt nc INT_MAX_def)
  then show ?thesis
    using h1 h2 by blast
qed

text \<open>
  Claim C6. With either C library, for a live tracee: at a signal-delivery stop with
  signal \<open>sig\<close> the one continuation request is \<^verbatim>\<open>ptrace(PTRACE_SYSCALL, pid, 0, sig)\<close>;
  at a syscall boundary and at a group stop it passes 0; at a fork, vfork or clone event
  the request that arms the child and the one that continues the parent both pass 0.
  (At the entry of a system call the register read is taken not to be negative.)
\<close>

theorem C6_continuation_signal:
  assumes live: "tracee_at st c = Some t"
    and wf: "length (syscall_count st) = length syscall_names"
    and e: "valid_event e" "\<not> terminal e"
    and ok: "e = SyscallBoundary \<and> in_syscall t = 0 \<longrightarrow> 0 \<le> peekuser env"
  shows "\<exists>calls st'.
           tracer_cb L syscall_names debug env c (wait_status e) st = Inr (calls, st') \<and>
           continuations calls =
             (case e of
                SignalDeliveryStop sig \<Rightarrow> [(pid t, sig)]
              | NewChildEvent k \<Rightarrow>
                  [(case geteventmsg env of Some msg \<Rightarrow> msg | None \<Rightarrow> 0, 0), (pid t, 0)]
              | _ \<Rightarrow> [(pid t, 0)])"
proof (cases e)
  case SyscallBoundary
  with ok have "in_syscall t = 0 \<longrightarrow> 0 \<le> peekuser env" by simp
  from tracer_cb_boundary_ok [OF live wf this] show ?thesis
    unfolding SyscallBoundary by fastforce
next
  case (NewChildEvent k)
  show ?thesis
    unfolding NewChildEvent tracer_cb_new_child [OF live] by (simp add: Let_def)
next
  case (GenericGroupStop sig)
  with e have "0 < sig" "sig < 128" by simp_all
  then show ?thesis
    unfolding GenericGroupStop tracer_cb_group_stop [OF live \<open>0 < sig\<close> \<open>sig < 128\<close>] by simp
next
  case (SignalDeliveryStop sig)
  with e have "0 < sig" "sig < 128" by simp_all
  then show ?thesis
    unfolding SignalDeliveryStop tracer_cb_signal_stop [OF live \<open>0 < sig\<close> \<open>sig < 128\<close>] by simp
qed (use e in simp_all)

theorem C6_continuation_signal_witness:
  "tracee_at (init_state [Some ''read'', Some ''write''] 100) tracer =
     Some \<lparr>pid = 100, cb = Some Tracer_cb, in_syscall = 0\<rparr> \<and>
   valid_event (SignalDeliveryStop 17) \<and> \<not> terminal (SignalDeliveryStop 17) \<and>
   (\<exists>calls st'.
      tracer_cb Musl [Some ''read'', Some ''write''] True \<lparr>peekuser = 1, geteventmsg = None\<rparr>
        tracer (wait_status (SignalDeliveryStop 17))
        (init_state [Some ''read'', Some ''write''] 100) = Inr (calls, st') \<and>
      continuations calls = [(100, 17)])"
proof -
  let ?ns = "[Some ''read'', Some ''write'']"
  let ?t = "\<lparr>pid = 100, cb = Some Tracer_cb, in_syscall = 0\<rparr>"
  have h1: "tracee_at (init_state ?ns 100) tracer = Some ?t"
    by (rule init_state_root)
  have h2: "length (syscall_count (init_state ?ns 100)) = length ?ns"
    by (rule init_state_wf)
  have h3: "valid_event (SignalDeliveryStop 17)" by simp
  have h4: "\<not> terminal (SignalDeliveryStop 17)" by simp
  have h5: "SignalDeliveryStop 17 = SyscallBoundary \<and> in_syscall ?t = 0 \<longrightarrow>
            0 \<le> peekuser \<lparr>peekuser = 1, geteventmsg = None\<rparr>"
    by simp
  show ?thesis
    using h1 h3 h4 C6_continuation_signal [OF h1 h2 h3 h4 h5, of Musl True] by simp
qed




text \<open>
  Claim C9. At a fork, vfork or clone event of a live tracee, with either C library, the
  handler asks for the event message of the triggering process, takes a fresh tracee
  whose pid is that message (0 when the request fails), whose callback is \<^verbatim>\<open>tracer_cb\<close>
  and whose flag is clear, arms it with \<^verbatim>\<open>PTRACE_SYSCALL\<close> and signal 0, registers it
  with \<^verbatim>\<open>uloop_process_add\<close>, and then continues the parent with signal 0 and registers
  it again. The other tracees, the counters and the loop are left as they were.
\<close>

theorem C9_new_child_registered:
  assumes live: "tracee_at st c = Some t"
  shows "let child_pid = (case geteventmsg env of Some msg \<Rightarrow> msg | None \<Rightarrow> 0);
             child = length (tracees st)
         in tracee_at st child = None \<and>
            (\<exists>st'. tracer_cb L syscall_names debug env c (wait_status (NewChildEvent k)) st =
                     Inr ([Ptrace_geteventmsg (pid t), Ptrace_syscall child_pid 0,
                           Uloop_process_add child] @
                          (if debug then [Fprintf_new_child child_pid] else []) @
                          [Ptrace_syscall (pid t) 0, Uloop_process_add c], st') \<and>
                   tracee_at st' child =
                     Some \<lparr>pid = child_pid, cb = Some Tracer_cb, in_syscall = 0\<rparr> \<and>
                   (\<forall>h < length (tracees st). tracee_at st' h = tracee_at st h) \<and>
                   syscall_count st' = syscall_count st \<and>
                   uloop_cancelled st' = uloop_cancelled st)"
  unfolding tracer_cb_new_child [OF live]
  by (simp add: Let_def tracee_at_def nth_append)

theorem C9_new_child_registered_witness:
  "tracee_at (init_state [Some ''read'', Some ''write''] 100) tracer =
     Some \<lparr>pid = 100, cb = Some Tracer_cb, in_syscall = 0\<rparr> \<and>
   (\<exists>st'.
      tracer_cb Glibc [Some ''read'', Some ''write''] False
        \<lparr>peekuser = 0, geteventmsg = Some 101\<rparr>
        tracer (wait_status (NewChildEvent Clone))
        (init_state [Some ''read'', Some ''write''] 100) =
        Inr ([Ptrace_geteventmsg 100, Ptrace_syscall 101 0, Uloop_process_add 1,
              Ptrace_syscall 100 0, Uloop_process_add tracer], st') \<and>
      tracee_at st' 1 = Some \<lparr>pid = 101, cb = Some Tracer_cb, in_syscall = 0\<rparr>)"
proof -
  let ?ns = "[Some ''read'', Some ''write'']"
  let ?t = "\<lparr>pid = 100, cb = Some Tracer_cb, in_syscall = 0\<rparr>"
  have h1: "tracee_at (init_state ?ns 100) tracer = Some ?t"
    by (rule init_state_root)
  have len: "length (tracees (init_state ?ns 100)) = 1"
    by (simp add: init_state_def)
  show ?thesis
    using h1 C9_new_child_registered [OF h1, of "\<lparr>peekuser = 0, geteventmsg = Some 101\<rparr>"
        Glibc ?ns False Clone]
    by (simp add: Let_def len) blast
qed




end
